theory Spec2Isabelle
  imports Complex_Main
begin

section \<open>Floor connectivity and line of sight of the Haunts board game\<close>

text \<open>
  The development embeds the Go sources \<^verbatim>\<open>game/los.go\<close> (connectivity, adjacency,
  ray casting, line of sight, the visibility field) and the house package's room and
  door code (door placement) and proves or refutes the properties its specification
  states about them.

  Go's \<^verbatim>\<open>int\<close> is modelled by \<^typ>\<open>int\<close>. The coordinates are cell positions of a
  floor plan; an overflow of a 64-bit \<^verbatim>\<open>int\<close> in the functions below needs two
  coordinates that lie at least \<open>2^63\<close> apart, and \<^verbatim>\<open>bresenham\<close> appends one
  cell for every unit of that distance, so no run that ends reaches it.
\<close>

subsection \<open>Sight-ray rasterizer: \<^verbatim>\<open>bresenham\<close>\<close>

type_synonym cell = "int \<times> int"

text \<open>
  The loop \<^verbatim>\<open>for cx := x; cx != x2; cx += xstep\<close> of \<^verbatim>\<open>bresenham\<close>, with the
  variables it reads and writes as arguments. It ends only when \<open>cx\<close> meets \<open>x2\<close>, so
  as a function of arbitrary arguments it is partial: \<open>None\<close> stands for a run that
  never ends. The result is the slice \<open>ret\<close> and the last value of \<open>cy\<close>.
\<close>

partial_function (option) bresenham_loop ::
  "bool \<Rightarrow> int \<Rightarrow> int \<Rightarrow> int \<Rightarrow> int \<Rightarrow> int \<Rightarrow> int \<Rightarrow> int \<Rightarrow> int \<Rightarrow> cell list
     \<Rightarrow> (cell list \<times> int) option"
where
  "bresenham_loop steep dx dy x2 xstep ystep cx cy err ret =
     (if cx \<noteq> x2 then
        (let ret = ret @ [if \<not> steep then (cx, cy) else (cy, cx)];
             err = err - dy
         in if err < 0
            then bresenham_loop steep dx dy x2 xstep ystep (cx + xstep) (cy + ystep) (err + dx) ret
            else bresenham_loop steep dx dy x2 xstep ystep (cx + xstep) cy err ret)
      else Some (ret, cy))"

declare bresenham_loop.simps [code]

definition bresenham :: "int \<Rightarrow> int \<Rightarrow> int \<Rightarrow> int \<Rightarrow> cell list option" where
  "bresenham x y x2 y2 =
     (let dx = x2 - x;
          dx = (if dx < 0 then - dx else dx);
          dy = y2 - y;
          dy = (if dy < 0 then - dy else dy);
          steep = (dy > dx);
          (x, y, x2, y2, dx, dy) =
             (if steep then (y, x, y2, x2, dy, dx) else (x, y, x2, y2, dx, dy));
          err = dx div 2;
          cy = y;
          xstep = (if x2 < x then - 1 else 1);
          ystep = (if y2 < y then - 1 else 1)
      in case bresenham_loop steep dx dy x2 xstep ystep x cy err [] of
           None \<Rightarrow> None
         | Some (ret, cy) \<Rightarrow> Some (ret @ [if \<not> steep then (x2, cy) else (cy, x2)]))"

subsection \<open>Rooms, doors and floors\<close>

text \<open>
  \<^verbatim>\<open>WallFacing\<close> is the enumeration of the house package. A \<^verbatim>\<open>Door\<close> embeds its
  definition (\<^verbatim>\<open>doorDef\<close>, of which only \<^verbatim>\<open>Width\<close> is read here) and its
  \<^verbatim>\<open>DoorInst\<close>. A \<^verbatim>\<open>Room\<close> embeds \<^verbatim>\<open>RoomInst\<close> (\<open>Doors\<close>, \<open>X\<close>, \<open>Y\<close>) and
  its definition \<^verbatim>\<open>roomDef\<close>. The declaration of \<^verbatim>\<open>roomDef\<close> and of the furniture
  type are not among the sources; the fields below are the ones the code reads:
  \<^verbatim>\<open>Size.Dx\<close>, \<^verbatim>\<open>Size.Dy\<close>, \<^verbatim>\<open>Cell_data[i][j].CanHaveDoor\<close>, \<^verbatim>\<open>Furniture\<close>, and
  for a piece of furniture \<^verbatim>\<open>Pos()\<close>, \<^verbatim>\<open>Dims()\<close> and \<^verbatim>\<open>Blocks_los\<close>.
\<close>

datatype WallFacing = NearLeft | NearRight | FarLeft | FarRight

record Door =
  Defname :: string
  Width :: int
  Facing :: WallFacing
  Pos :: int
  Opened :: bool

record Furniture =
  FurnPos :: cell
  FurnDims :: cell
  Blocks_los :: bool

record RoomSize =
  Dx :: int
  Dy :: int

record Room =
  Size :: RoomSize
  Cell_data :: "bool list list"
  Furniture :: "Furniture list"
  Doors :: "Door list"
  X :: int
  Y :: int

text \<open>
  The code holds rooms by pointer and compares the pointers (\<^verbatim>\<open>r == r2\<close>), so a room
  is a reference into a store, and a floor is the list of the references of its rooms.
  A nil pointer is \<open>None\<close> where the code can meet one.
\<close>

type_synonym room_ref = nat
type_synonym store = "room_ref \<Rightarrow> Room"

record Floor =
  Rooms :: "room_ref list"

text \<open>What makes the Go runtime panic in the code below.\<close>

datatype panic = IndexOutOfRange | NilDereference | DivideByZero | NotInRegistry

definition go_index :: "'a list \<Rightarrow> int \<Rightarrow> panic + 'a" where
  "go_index xs i = (if 0 \<le> i \<and> i < int (length xs) then Inr (xs ! nat i) else Inl IndexOutOfRange)"

text \<open>\<^verbatim>\<open>room.Pos()\<close> is in the sources; \<^verbatim>\<open>room.Dims()\<close> is not.\<close>

definition Room_Pos :: "Room \<Rightarrow> int \<times> int" where
  "Room_Pos ri = (X ri, Y ri)"

text \<open>
  Modelled from the spec: \<^verbatim>\<open>Dims()\<close> of a room, a method of the absent \<^verbatim>\<open>roomDef\<close>.
  The spec gives a room an integer \<open>(Dx, Dy)\<close> size, which is its \<^verbatim>\<open>Size\<close>.
\<close>

definition Room_Dims :: "Room \<Rightarrow> int \<times> int" where
  "Room_Dims rd = (Dx (Size rd), Dy (Size rd))"

subsection \<open>Connectivity across a wall: \<^verbatim>\<open>connected\<close>\<close>

text \<open>
  The loop over \<^verbatim>\<open>r.Doors\<close>, with \<open>x\<close> and \<open>y\<close> already relative to the room. The
  \<^verbatim>\<open>switch\<close> picks the coordinate that runs along the wall.
\<close>

fun connected_doors :: "WallFacing \<Rightarrow> int \<Rightarrow> int \<Rightarrow> Door list \<Rightarrow> bool" where
  "connected_doors facing x y [] = False"
| "connected_doors facing x y (door # doors) =
     (if Facing door \<noteq> facing then connected_doors facing x y doors
      else
        (let pos = (case facing of
                      NearLeft \<Rightarrow> y
                    | FarRight \<Rightarrow> y
                    | NearRight \<Rightarrow> x
                    | FarLeft \<Rightarrow> x)
         in if pos \<ge> Pos door \<and> pos < Pos door + Width door then Opened door
            else connected_doors facing x y doors))"

text \<open>
  \<^verbatim>\<open>connected(r, r2, x, y, x2, y2)\<close> for two rooms that are not nil (every call in
  the sources passes rooms it has checked, except \<^verbatim>\<open>Adjacent\<close> for its own room,
  where the model checks before the call).
\<close>

definition connected :: "store \<Rightarrow> room_ref \<Rightarrow> room_ref \<Rightarrow> int \<Rightarrow> int \<Rightarrow> int \<Rightarrow> int \<Rightarrow> bool" where
  "connected h r r2 x y x2 y2 =
     (if r = r2 then True
      else
        (let x = x - X (h r);
             y = y - Y (h r);
             x2 = x2 - X (h r2);
             y2 = y2 - Y (h r2)
         in case (if x = 0 \<and> x2 \<noteq> 0 then Some NearLeft
                  else if y = 0 \<and> y2 \<noteq> 0 then Some NearRight
                  else if x \<noteq> 0 \<and> x2 = 0 then Some FarRight
                  else if y \<noteq> 0 \<and> y2 = 0 then Some FarLeft
                  else None) of
              None \<Rightarrow> False
            | Some facing \<Rightarrow> connected_doors facing x y (Doors (h r))))"

subsection \<open>Door placement: \<^verbatim>\<open>canAddDoor\<close> and \<^verbatim>\<open>findRoomForDoor\<close>\<close>

definition cell_at :: "Room \<Rightarrow> int \<Rightarrow> int \<Rightarrow> panic + bool" where
  "cell_at room i j =
     (case go_index (Cell_data room) i of
        Inl e \<Rightarrow> Inl e
      | Inr col \<Rightarrow> go_index col j)"

text \<open>
  The two loops \<^verbatim>\<open>for pos := door.Pos; pos <= door.Pos + door.Width; pos++\<close>. The result
  \<open>Inr False\<close> is the \<^verbatim>\<open>return false\<close> inside the loop, \<open>Inr True\<close> its normal end.
\<close>

function cells_along_x :: "Room \<Rightarrow> int \<Rightarrow> int \<Rightarrow> int \<Rightarrow> panic + bool" where
  "cells_along_x room y pos hi =
     (if pos \<le> hi then
        (case cell_at room pos y of
           Inl e \<Rightarrow> Inl e
         | Inr can \<Rightarrow> if \<not> can then Inr False else cells_along_x room y (pos + 1) hi)
      else Inr True)"
  by pat_completeness auto
termination
  by (relation "measure (\<lambda>(room, y, pos, hi). nat (hi + 1 - pos))") auto

function cells_along_y :: "Room \<Rightarrow> int \<Rightarrow> int \<Rightarrow> int \<Rightarrow> panic + bool" where
  "cells_along_y room x pos hi =
     (if pos \<le> hi then
        (case cell_at room x pos of
           Inl e \<Rightarrow> Inl e
         | Inr can \<Rightarrow> if \<not> can then Inr False else cells_along_y room x (pos + 1) hi)
      else Inr True)"
  by pat_completeness auto
termination
  by (relation "measure (\<lambda>(room, x, pos, hi). nat (hi + 1 - pos))") auto

text \<open>The loop over \<^verbatim>\<open>room.Doors\<close>: \<open>False\<close> is its \<^verbatim>\<open>return false\<close>.\<close>

fun no_overlap :: "Door \<Rightarrow> Door list \<Rightarrow> bool" where
  "no_overlap door [] = True"
| "no_overlap door (other # others) =
     (if Facing other \<noteq> Facing door then no_overlap door others
      else if Pos other \<ge> Pos door \<and> Pos other - Pos door < Width door then False
      else if Pos door \<ge> Pos other \<and> Pos door - Pos other < Width other then False
      else no_overlap door others)"

text \<open>\<^verbatim>\<open>func (room *Room) canAddDoor(door *Door) bool\<close>\<close>

definition Room_canAddDoor :: "Room \<Rightarrow> Door \<Rightarrow> panic + bool" where
  "Room_canAddDoor room door =
     (if Pos door < 0 then Inr False
      else
        case (if Facing door = FarLeft \<or> Facing door = NearRight then
                (if Pos door + Width door \<ge> Dx (Size room) then Inr False
                 else
                   (let y = (if Facing door = FarLeft then Dy (Size room) - 1 else 0)
                    in cells_along_x room y (Pos door) (Pos door + Width door)))
              else Inr True) of
          Inl e \<Rightarrow> Inl e
        | Inr go_on \<Rightarrow>
            if \<not> go_on then Inr False
            else
              case (if Facing door = FarRight \<or> Facing door = NearLeft then
                      (if Pos door + Width door \<ge> Dy (Size room) then Inr False
                       else
                         (let x = (if Facing door = FarRight then Dx (Size room) - 1 else 0)
                          in cells_along_y room x (Pos door) (Pos door + Width door)))
                    else Inr True) of
                Inl e \<Rightarrow> Inl e
              | Inr go_on \<Rightarrow>
                  if \<not> go_on then Inr False
                  else Inr (no_overlap door (Doors room)))"

text \<open>
  \<^verbatim>\<open>MakeDoor(name)\<close> looks the name up in the registry of door definitions
  (\<^verbatim>\<open>base.LoadObject\<close> panics when it is not there) and returns a door with that
  definition and a zero \<^verbatim>\<open>DoorInst\<close>. The registry is a map from names to widths.
\<close>

definition MakeDoor :: "(string \<rightharpoonup> int) \<Rightarrow> string \<Rightarrow> panic + Door" where
  "MakeDoor registry name =
     (case registry name of
        None \<Rightarrow> Inl NotInRegistry
      | Some w \<Rightarrow> Inr \<lparr>Defname = name, Width = w, Facing = NearLeft, Pos = 0, Opened = False\<rparr>)"

text \<open>The two loops over \<^verbatim>\<open>f.Rooms\<close> of \<^verbatim>\<open>findRoomForDoor\<close>.\<close>

fun findRoom_FarLeft ::
  "store \<Rightarrow> (string \<rightharpoonup> int) \<Rightarrow> room_ref \<Rightarrow> Door \<Rightarrow> room_ref list \<Rightarrow> panic + (room_ref \<times> Door) option"
where
  "findRoom_FarLeft h registry target door [] = Inr None"
| "findRoom_FarLeft h registry target door (room # rooms) =
     (if Y (h room) = Y (h target) + Dy (Size (h target)) then
        (case MakeDoor registry (Defname door) of
           Inl e \<Rightarrow> Inl e
         | Inr temp \<Rightarrow>
             (let temp = temp\<lparr>Pos := Pos door - (X (h room) - X (h target))\<rparr>;
                  temp = temp\<lparr>Facing := NearRight\<rparr>
              in case Room_canAddDoor (h room) temp of
                   Inl e \<Rightarrow> Inl e
                 | Inr ok \<Rightarrow>
                     if ok then Inr (Some (room, temp))
                     else findRoom_FarLeft h registry target door rooms))
      else findRoom_FarLeft h registry target door rooms)"

fun findRoom_FarRight ::
  "store \<Rightarrow> (string \<rightharpoonup> int) \<Rightarrow> room_ref \<Rightarrow> Door \<Rightarrow> room_ref list \<Rightarrow> panic + (room_ref \<times> Door) option"
where
  "findRoom_FarRight h registry target door [] = Inr None"
| "findRoom_FarRight h registry target door (room # rooms) =
     (if X (h room) = X (h target) + Dx (Size (h target)) then
        (case MakeDoor registry (Defname door) of
           Inl e \<Rightarrow> Inl e
         | Inr temp \<Rightarrow>
             (let temp = temp\<lparr>Pos := Pos door - (Y (h room) - Y (h target))\<rparr>;
                  temp = temp\<lparr>Facing := NearLeft\<rparr>
              in case Room_canAddDoor (h room) temp of
                   Inl e \<Rightarrow> Inl e
                 | Inr ok \<Rightarrow>
                     if ok then Inr (Some (room, temp))
                     else findRoom_FarRight h registry target door rooms))
      else findRoom_FarRight h registry target door rooms)"

text \<open>
  \<^verbatim>\<open>func (f *Floor) findRoomForDoor(target *Room, door *Door) (*Room, *Door)\<close>: the
  result \<open>None\<close> is \<^verbatim>\<open>(nil, nil)\<close>.
\<close>

definition findRoomForDoor ::
  "store \<Rightarrow> (string \<rightharpoonup> int) \<Rightarrow> Floor \<Rightarrow> room_ref \<Rightarrow> Door \<Rightarrow> panic + (room_ref \<times> Door) option"
where
  "findRoomForDoor h registry f target door =
     (case Room_canAddDoor (h target) door of
        Inl e \<Rightarrow> Inl e
      | Inr ok \<Rightarrow>
          if \<not> ok then Inr None
          else if Facing door = FarLeft then findRoom_FarLeft h registry target door (Rooms f)
          else if Facing door = FarRight then findRoom_FarRight h registry target door (Rooms f)
          else Inr None)"

text \<open>\<^verbatim>\<open>func (f *Floor) canAddDoor(target *Room, door *Door) bool\<close>\<close>

definition Floor_canAddDoor ::
  "store \<Rightarrow> (string \<rightharpoonup> int) \<Rightarrow> Floor \<Rightarrow> room_ref \<Rightarrow> Door \<Rightarrow> panic + bool"
where
  "Floor_canAddDoor h registry f target door =
     (case findRoomForDoor h registry f target door of
        Inl e \<Rightarrow> Inl e
      | Inr r \<Rightarrow> Inr (r \<noteq> None))"

text \<open>
  \<^verbatim>\<open>findMatchingDoor\<close>: the door of another room of the floor that is the other side
  of \<open>door\<close>. The inner loop runs over the doors of one other room; \<open>None\<close> is its end
  without a \<^verbatim>\<open>return\<close>.
\<close>

fun matching_in_room :: "Room \<Rightarrow> Door \<Rightarrow> Room \<Rightarrow> Door list \<Rightarrow> Door option" where
  "matching_in_room room door other_room [] = None"
| "matching_in_room room door other_room (other_door # other_doors) =
     (if Facing door = FarLeft \<and> Facing other_door \<noteq> NearRight
        then matching_in_room room door other_room other_doors
      else if Facing door = FarRight \<and> Facing other_door \<noteq> NearLeft
        then matching_in_room room door other_room other_doors
      else if Facing door = NearLeft \<and> Facing other_door \<noteq> FarRight
        then matching_in_room room door other_room other_doors
      else if Facing door = NearRight \<and> Facing other_door \<noteq> FarLeft
        then matching_in_room room door other_room other_doors
      else if Facing door = FarLeft \<and> Y other_room \<noteq> Y room + Dy (Size room)
        then matching_in_room room door other_room other_doors
      else if Facing door = NearRight \<and> Y room \<noteq> Y other_room + Dy (Size other_room)
        then matching_in_room room door other_room other_doors
      else if Facing door = FarRight \<and> X other_room \<noteq> X room + Dx (Size room)
        then matching_in_room room door other_room other_doors
      else if Facing door = NearLeft \<and> X room \<noteq> X other_room + Dx (Size other_room)
        then matching_in_room room door other_room other_doors
      else if (Facing door = FarLeft \<or> Facing door = NearRight)
               \<and> Pos door = Pos other_door - (X room - X other_room)
        then Some other_door
      else if (Facing door = FarRight \<or> Facing door = NearLeft)
               \<and> Pos door = Pos other_door - (Y room - Y other_room)
        then Some other_door
      else matching_in_room room door other_room other_doors)"

fun matching_in_rooms :: "store \<Rightarrow> room_ref \<Rightarrow> Door \<Rightarrow> room_ref list \<Rightarrow> Door option" where
  "matching_in_rooms h room door [] = None"
| "matching_in_rooms h room door (other_room # other_rooms) =
     (if other_room = room then matching_in_rooms h room door other_rooms
      else
        (case matching_in_room (h room) door (h other_room) (Doors (h other_room)) of
           Some other_door \<Rightarrow> Some other_door
         | None \<Rightarrow> matching_in_rooms h room door other_rooms))"

definition findMatchingDoor :: "store \<Rightarrow> Floor \<Rightarrow> room_ref \<Rightarrow> Door \<Rightarrow> Door option" where
  "findMatchingDoor h f room door = matching_in_rooms h room door (Rooms f)"

subsection \<open>Entities and the visibility field\<close>

text \<open>
  The declaration of \<^verbatim>\<open>Entity\<close> is not among the sources. The fields are what the
  code reads and writes: \<^verbatim>\<open>ent.Pos()\<close>, \<^verbatim>\<open>ent.Stats.Sight()\<close>, \<^verbatim>\<open>ent.Side\<close>, and the
  sight cache \<^verbatim>\<open>los\<close>, \<^verbatim>\<open>losx\<close>, \<^verbatim>\<open>losy\<close>.

  The Go type of \<^verbatim>\<open>los\<close> is \<^verbatim>\<open>map[[2]int]bool\<close>, and the code only ever stores
  \<^verbatim>\<open>true\<close> in such a map. It is modelled by the list of its keys, each once, in the
  order in which a \<^verbatim>\<open>range\<close> loop visits them (an order that Go leaves open).
\<close>

type_synonym cell_map = "cell list"

definition map_lookup :: "cell_map \<Rightarrow> cell \<Rightarrow> bool" where
  "map_lookup m p = (p \<in> set m)"

definition map_store :: "cell_map \<Rightarrow> cell \<Rightarrow> cell_map" where
  "map_store m p = (if p \<in> set m then m else m @ [p])"

datatype Side = Explorers | Haunt

record Entity =
  EntPos :: cell
  Sight :: int
  EntSide :: Side
  los :: cell_map
  losx :: int
  losy :: int

text \<open>
  Modelled from the spec: \<^verbatim>\<open>house.LosTexture\<close> with its methods \<^verbatim>\<open>Region\<close>, \<^verbatim>\<open>Get\<close>,
  \<^verbatim>\<open>Set\<close>, \<^verbatim>\<open>Pix\<close> and \<^verbatim>\<open>Remap\<close>, which are not among the sources. The spec
  describes a 2D byte array addressed by absolute floor coordinate with an offset
  window: \<open>pix\<close> gives the byte of every coordinate, \<open>Region\<close> the corners
  \<open>(x, y, x2, y2)\<close> of the window, both inclusive; \<^verbatim>\<open>Get\<close> reads and \<^verbatim>\<open>Set\<close>
  writes one byte, and \<^verbatim>\<open>Remap\<close> moves the window to a new corner and keeps its extent.
  Bytes are integers from 0 to 255; a conversion \<^verbatim>\<open>byte(v)\<close> is \<open>v mod 256\<close>.
\<close>

record LosTexture =
  pix :: "cell \<Rightarrow> int"
  Region :: "int \<times> int \<times> int \<times> int"

definition Get :: "LosTexture \<Rightarrow> int \<Rightarrow> int \<Rightarrow> int" where
  "Get lt x y = pix lt (x, y)"

definition Set :: "LosTexture \<Rightarrow> int \<Rightarrow> int \<Rightarrow> int \<Rightarrow> LosTexture" where
  "Set lt x y val = lt\<lparr>pix := (pix lt)((x, y) := val)\<rparr>"

definition Remap :: "LosTexture \<Rightarrow> int \<Rightarrow> int \<Rightarrow> LosTexture" where
  "Remap lt x y =
     (case Region lt of (x0, y0, x2, y2) \<Rightarrow> lt\<lparr>Region := (x, y, x + (x2 - x0), y + (y2 - y0))\<rparr>)"

text \<open>
  \<^verbatim>\<open>MergeLos\<close>. The constants \<^verbatim>\<open>house.LosVisibilityThreshold\<close> and
  \<^verbatim>\<open>house.LosMinVisibility\<close> are not among the sources and are arguments
  (\<open>threshold\<close>, \<open>min_visibility\<close>) of the functions that use them.
\<close>

definition merge_of :: "Entity list \<Rightarrow> cell_map" where
  "merge_of ents = fold (\<lambda>ent merge. fold (\<lambda>p merge. map_store merge p) (los ent) merge) ents []"

definition MergeLos_hide :: "int \<Rightarrow> cell_map \<Rightarrow> LosTexture \<Rightarrow> LosTexture" where
  "MergeLos_hide threshold merge lt =
     (case Region lt of (ltx, lty, ltx2, lty2) \<Rightarrow>
        fold (\<lambda>i lt.
          fold (\<lambda>j lt.
            if map_lookup merge (i, j) then lt
            else if Get lt i j \<ge> threshold then Set lt i j (threshold - 1)
            else lt) [lty..lty2] lt) [ltx..ltx2] lt)"

definition MergeLos_show :: "int \<Rightarrow> cell_map \<Rightarrow> LosTexture \<Rightarrow> LosTexture" where
  "MergeLos_show threshold merge lt =
     fold (\<lambda>p lt.
       if Get lt (fst p) (snd p) < threshold then Set lt (fst p) (snd p) threshold
       else lt) merge lt"

definition MergeLos :: "int \<Rightarrow> LosTexture \<Rightarrow> Entity list \<Rightarrow> LosTexture" where
  "MergeLos threshold lt ents =
     (let merge = merge_of ents
      in MergeLos_show threshold merge (MergeLos_hide threshold merge lt))"

text \<open>
  The end of \<^verbatim>\<open>Think\<close>, from \<^verbatim>\<open>pix,_,_ := g.los_tex.Pix()\<close> on: the decay of the
  field by \<open>dt\<close>. Go's integer division truncates towards zero. The flag \<^verbatim>\<open>mod\<close> of
  the source is \<open>changed\<close> here.
\<close>

definition go_div :: "int \<Rightarrow> int \<Rightarrow> int" where
  "go_div a b = sgn a * sgn b * (\<bar>a\<bar> div \<bar>b\<bar>)"

definition decay_cell :: "int \<Rightarrow> int \<Rightarrow> int \<Rightarrow> int \<Rightarrow> int" where
  "decay_cell threshold min_visibility amt old =
     (let v = old;
          v = (if v < threshold then v - amt else v + amt);
          v = (if v < min_visibility then min_visibility else v);
          v = (if v < 0 then 0 else v);
          v = (if v > 255 then 255 else v)
      in v)"

definition Think_decay :: "int \<Rightarrow> int \<Rightarrow> int \<Rightarrow> LosTexture \<Rightarrow> LosTexture" where
  "Think_decay threshold min_visibility dt lt =
     (case Region lt of (ltx, lty, ltx2, lty2) \<Rightarrow>
        (let amt = go_div dt 5;
             (lt, changed) =
               fold (\<lambda>i (lt, changed).
                 fold (\<lambda>j (lt, changed).
                   (let v = decay_cell threshold min_visibility amt (pix lt (i, j));
                        changed = (changed \<or> v mod 256 \<noteq> pix lt (i, j))
                    in (lt\<lparr>pix := (pix lt)((i, j) := v mod 256)\<rparr>, changed)))
                   [lty..lty2] (lt, changed)) [ltx..ltx2] (lt, False)
         in if changed then Remap lt (- 20) (- 20) else lt))"

text \<open>
  What a whole \<^verbatim>\<open>Think\<close> does to the field: \<^verbatim>\<open>g.MergeLos(side_ents)\<close>, where
  \<open>side_ents\<close> are the entities of the side to move with the \<open>los\<close> sets that
  \<^verbatim>\<open>DetermineLos\<close> has left them, and then the decay.
\<close>

definition Think_field :: "int \<Rightarrow> int \<Rightarrow> int \<Rightarrow> LosTexture \<Rightarrow> Entity list \<Rightarrow> LosTexture" where
  "Think_field threshold min_visibility dt lt side_ents =
     Think_decay threshold min_visibility dt (MergeLos threshold lt side_ents)"

subsection \<open>The game: vertices, rooms and furniture at a cell\<close>

text \<open>
  Of \<^verbatim>\<open>Game\<close> the code below reads \<^verbatim>\<open>g.house.Floors\<close> (always its element 0, which
  panics on a house without floors) and \<^verbatim>\<open>g.Ents\<close>.
\<close>

record Game =
  Floors :: "Floor list"
  Ents :: "Entity list"

definition floor0 :: "Game \<Rightarrow> panic + Floor" where
  "floor0 g = go_index (Floors g) 0"

definition go_mod :: "int \<Rightarrow> int \<Rightarrow> int" where
  "go_mod a b = a - b * go_div a b"

fun FromVertex_rooms :: "store \<Rightarrow> room_ref list \<Rightarrow> int \<Rightarrow> panic + (room_ref option \<times> int \<times> int)" where
  "FromVertex_rooms h [] v = Inr (None, 0, 0)"
| "FromVertex_rooms h (room # rooms) v =
     (let size = Dx (Size (h room)) * Dy (Size (h room))
      in if v \<ge> size then FromVertex_rooms h rooms (v - size)
         else if Dx (Size (h room)) = 0 then Inl DivideByZero
         else Inr (Some room,
                   X (h room) + go_mod v (Dx (Size (h room))),
                   Y (h room) + go_div v (Dx (Size (h room)))))"

definition FromVertex :: "store \<Rightarrow> Game \<Rightarrow> int \<Rightarrow> panic + (room_ref option \<times> int \<times> int)" where
  "FromVertex h g v =
     (case floor0 g of
        Inl e \<Rightarrow> Inl e
      | Inr f \<Rightarrow> FromVertex_rooms h (Rooms f) v)"

fun ToVertex_rooms :: "store \<Rightarrow> room_ref list \<Rightarrow> int \<Rightarrow> int \<Rightarrow> int \<Rightarrow> int" where
  "ToVertex_rooms h [] x y v = v"
| "ToVertex_rooms h (room # rooms) x y v =
     (if x \<ge> X (h room) \<and> y \<ge> Y (h room)
         \<and> x < X (h room) + Dx (Size (h room)) \<and> y < Y (h room) + Dy (Size (h room))
      then (let x = x - X (h room);
                y = y - Y (h room)
            in v + (x + y * Dx (Size (h room))))
      else ToVertex_rooms h rooms x y (v + Dx (Size (h room)) * Dy (Size (h room))))"

definition ToVertex :: "store \<Rightarrow> Game \<Rightarrow> int \<Rightarrow> int \<Rightarrow> panic + int" where
  "ToVertex h g x y =
     (case floor0 g of
        Inl e \<Rightarrow> Inl e
      | Inr f \<Rightarrow> Inr (ToVertex_rooms h (Rooms f) x y 0))"

text \<open>
  \<^verbatim>\<open>furnitureAt\<close> and \<^verbatim>\<open>roomAt\<close> return the first piece of furniture, the first room,
  that covers the cell, or nil.
\<close>

definition furnitureAt :: "Room \<Rightarrow> int \<Rightarrow> int \<Rightarrow> Furniture option" where
  "furnitureAt room x y =
     find (\<lambda>f. case FurnPos f of (fx, fy) \<Rightarrow> case FurnDims f of (fdx, fdy) \<Rightarrow>
              x \<ge> fx \<and> x < fx + fdx \<and> y \<ge> fy \<and> y < fy + fdy)
       (Furniture room)"

definition roomAt :: "store \<Rightarrow> Floor \<Rightarrow> int \<Rightarrow> int \<Rightarrow> room_ref option" where
  "roomAt h f x y =
     find (\<lambda>room. case Room_Pos (h room) of (rx, ry) \<Rightarrow> case Room_Dims (h room) of (rdx, rdy) \<Rightarrow>
              x \<ge> rx \<and> x < rx + rdx \<and> y \<ge> ry \<and> y < ry + rdy)
       (Rooms f)"

subsection \<open>The movement graph: \<^verbatim>\<open>Adjacent\<close>\<close>

text \<open>
  A loop whose body can panic: the state is threaded through the list of the values
  of the loop variable, and the first panic ends the run.
\<close>

fun fold_panic :: "('a \<Rightarrow> 's \<Rightarrow> panic + 's) \<Rightarrow> 'a list \<Rightarrow> 's \<Rightarrow> panic + 's" where
  "fold_panic f [] s = Inr s"
| "fold_panic f (x # xs) s =
     (case f x s of
        Inl e \<Rightarrow> Inl e
      | Inr s' \<Rightarrow> fold_panic f xs s')"

text \<open>
  The pairs \<open>(dx, dy)\<close> in the order of the nested loops
  \<^verbatim>\<open>for dx := -1; dx <= 1; dx++ { for dy := -1; dy <= 1; dy++ {\<close>.
\<close>

definition directions :: "(int \<times> int) list" where
  "directions = concat (map (\<lambda>dx. map (\<lambda>dy. (dx, dy)) [- 1, 0, 1]) [- 1, 0, 1])"

text \<open>
  The state of the two loops of \<^verbatim>\<open>Adjacent\<close>: the slices \<open>adj\<close> and \<open>weight\<close> and the
  array \<open>moves\<close>, indexed by \<open>(dx + 1, dy + 1)\<close>. The weights are 0, 1 and the halves of
  their sums, which \<^verbatim>\<open>float64\<close> computes exactly; they are reals here.

  The body of the first loop. The room of the vertex itself can be nil (for a vertex
  that is out of range); \<^verbatim>\<open>connected\<close> then dereferences it, since the other room is
  not nil at that point.
\<close>

type_synonym adj_state = "int list \<times> real list \<times> (int \<times> int \<Rightarrow> real)"

definition Adjacent_cardinal ::
  "store \<Rightarrow> Game \<Rightarrow> room_ref option \<Rightarrow> int \<Rightarrow> int \<Rightarrow> cell_map \<Rightarrow> int \<times> int \<Rightarrow> adj_state
     \<Rightarrow> panic + adj_state"
where
  "Adjacent_cardinal h g room x y ent_occupied d s =
     (case d of (dx, dy) \<Rightarrow> case s of (adj, weight, moves) \<Rightarrow>
        if (dx = 0) = (dy = 0) then Inr s
        else
          (let tx = x + dx;
               ty = y + dy
           in if map_lookup ent_occupied (tx, ty) then Inr s
              else
                case ToVertex h g tx ty of
                  Inl e \<Rightarrow> Inl e
                | Inr tv \<Rightarrow>
                    case FromVertex h g tv of
                      Inl e \<Rightarrow> Inl e
                    | Inr (None, _, _) \<Rightarrow> Inr s
                    | Inr (Some troom, _, _) \<Rightarrow>
                        if furnitureAt (h troom) (tx - X (h troom)) (ty - Y (h troom)) \<noteq> None
                        then Inr s
                        else
                          case room of
                            None \<Rightarrow> Inl NilDereference
                          | Some r \<Rightarrow>
                              if \<not> connected h r troom x y tx ty then Inr s
                              else
                                case ToVertex h g tx ty of
                                  Inl e \<Rightarrow> Inl e
                                | Inr tv \<Rightarrow>
                                    Inr (adj @ [tv], weight @ [1], moves((dx + 1, dy + 1) := 1))))"

text \<open>The body of the second loop.\<close>

definition Adjacent_diagonal ::
  "store \<Rightarrow> Game \<Rightarrow> room_ref option \<Rightarrow> int \<Rightarrow> int \<Rightarrow> cell_map \<Rightarrow> int \<times> int \<Rightarrow> adj_state
     \<Rightarrow> panic + adj_state"
where
  "Adjacent_diagonal h g room x y ent_occupied d s =
     (case d of (dx, dy) \<Rightarrow> case s of (adj, weight, moves) \<Rightarrow>
        if (dx = 0) \<noteq> (dy = 0) then Inr s
        else
          (let tx = x + dx;
               ty = y + dy
           in if map_lookup ent_occupied (tx, ty) then Inr s
              else
                case ToVertex h g tx ty of
                  Inl e \<Rightarrow> Inl e
                | Inr tv \<Rightarrow>
                    case FromVertex h g tv of
                      Inl e \<Rightarrow> Inl e
                    | Inr (None, _, _) \<Rightarrow> Inr s
                    | Inr (Some troom, _, _) \<Rightarrow>
                        if furnitureAt (h troom) (tx - X (h troom)) (ty - Y (h troom)) \<noteq> None
                        then Inr s
                        else
                          case room of
                            None \<Rightarrow> Inl NilDereference
                          | Some r \<Rightarrow>
                              if \<not> connected h r troom x y tx ty then Inr s
                              else if \<not> connected h troom r tx ty x y then Inr s
                              else if moves (dx + 1, 1) = 0 \<or> moves (1, dy + 1) = 0 then Inr s
                              else
                                case ToVertex h g tx ty of
                                  Inl e \<Rightarrow> Inl e
                                | Inr tv \<Rightarrow>
                                    (let w = (moves (dx + 1, 1) + moves (1, dy + 1)) / 2
                                     in Inr (adj @ [tv], weight @ [w],
                                             moves((dx + 1, dy + 1) := w)))))"

text \<open>\<^verbatim>\<open>func (g *Game) Adjacent(v int) ([]int, []float64)\<close>\<close>

definition Adjacent :: "store \<Rightarrow> Game \<Rightarrow> int \<Rightarrow> panic + (int list \<times> real list)" where
  "Adjacent h g v =
     (case FromVertex h g v of
        Inl e \<Rightarrow> Inl e
      | Inr (room, x, y) \<Rightarrow>
          (let ent_occupied = fold (\<lambda>ent occ. map_store occ (EntPos ent)) (Ents g) []
           in case fold_panic (Adjacent_cardinal h g room x y ent_occupied) directions
                     ([], [], \<lambda>_. 0) of
                Inl e \<Rightarrow> Inl e
              | Inr s \<Rightarrow>
                  case fold_panic (Adjacent_diagonal h g room x y ent_occupied) directions s of
                    Inl e \<Rightarrow> Inl e
                  | Inr (adj, weight, moves) \<Rightarrow> Inr (adj, weight)))"

subsection \<open>Line of sight: \<^verbatim>\<open>doLos\<close> and \<^verbatim>\<open>DetermineLos\<close>\<close>

text \<open>
  The test that \<^verbatim>\<open>doLos\<close> makes five times, each time as
  \<^verbatim>\<open>ra != nil && rb != nil && ra != rb && !connected(ra, rb, x, y, x2, y2)\<close> (without the
  first conjunct where \<open>ra\<close> is the room of the current cell, which is not nil there).
\<close>

definition closed_between ::
  "store \<Rightarrow> room_ref option \<Rightarrow> room_ref option \<Rightarrow> int \<Rightarrow> int \<Rightarrow> int \<Rightarrow> int \<Rightarrow> bool"
where
  "closed_between h ra rb x y x2 y2 =
     (case ra of
        None \<Rightarrow> False
      | Some a \<Rightarrow>
          (case rb of
             None \<Rightarrow> False
           | Some b \<Rightarrow> a \<noteq> b \<and> \<not> connected h a b x y x2 y2))"

text \<open>
  The loop \<^verbatim>\<open>for _,p := range line[1:]\<close> of \<^verbatim>\<open>doLos\<close>, with the variables \<open>x\<close>, \<open>y\<close>,
  \<open>room\<close>, \<open>dist\<close> and the map \<open>los\<close> as arguments (\<open>dist'\<close> and \<open>los'\<close> here). Every \<^verbatim>\<open>return\<close> gives back the map
  as it is then.
\<close>

fun doLos_loop ::
  "store \<Rightarrow> Floor \<Rightarrow> cell list \<Rightarrow> int \<Rightarrow> int \<Rightarrow> room_ref option \<Rightarrow> int \<Rightarrow> cell_map \<Rightarrow> cell_map"
where
  "doLos_loop h f [] x y room dist' los' = los'"
| "doLos_loop h f (p # line) x y room dist' los' =
     (let x0 = x;
          y0 = y;
          x = fst p;
          y = snd p;
          room0 = room;
          room = roomAt h f x y
      in case room of
           None \<Rightarrow> los'
         | Some rm \<Rightarrow>
             if (if x = x0 \<or> y = y0
                 then closed_between h (Some rm) room0 x y x0 y0
                 else
                   (let roomA = roomAt h f x0 y0;
                        roomB = roomAt h f x y0;
                        roomC = roomAt h f x0 y
                    in closed_between h roomA roomB x0 y0 x y0
                       \<or> closed_between h roomA roomC x0 y0 x0 y
                       \<or> closed_between h (Some rm) roomB x y x y0
                       \<or> closed_between h (Some rm) roomC x y x0 y))
             then los'
             else if (case furnitureAt (h rm) (x - X (h rm)) (y - Y (h rm)) of
                        None \<Rightarrow> False
                      | Some furn \<Rightarrow> Blocks_los furn)
             then los'
             else
               (let dist' = dist' - 1
                in if dist' \<le> 0 then los'
                   else doLos_loop h f line x y (Some rm) dist' (map_store los' p)))"

text \<open>
  \<^verbatim>\<open>func (g *Game) doLos(dist int, line [][2]int, los map[[2]int]bool)\<close>, which returns
  the map it has written to. \<^verbatim>\<open>line[0]\<close> panics on an empty line.
\<close>

definition doLos :: "store \<Rightarrow> Game \<Rightarrow> int \<Rightarrow> cell list \<Rightarrow> cell_map \<Rightarrow> panic + cell_map" where
  "doLos h g dist' line los' =
     (case line of
        [] \<Rightarrow> Inl IndexOutOfRange
      | p0 # rest \<Rightarrow>
          (let los' = map_store los' p0
           in case floor0 g of
                Inl e \<Rightarrow> Inl e
              | Inr f \<Rightarrow>
                  Inr (doLos_loop h f rest (fst p0) (snd p0) (roomAt h f (fst p0) (snd p0))
                         dist' los')))"

text \<open>
  A run of \<^verbatim>\<open>DetermineLos\<close> can panic (in \<^verbatim>\<open>doLos\<close>), and it calls \<^verbatim>\<open>bresenham\<close>,
  whose loop is partial in the model: \<open>None\<close> is a run that does not return,
  \<open>Some (Inl e)\<close> a panic, \<open>Some (Inr s)\<close> a return with the state \<open>s\<close>.
\<close>

fun fold_run :: "('a \<Rightarrow> 's \<Rightarrow> (panic + 's) option) \<Rightarrow> 'a list \<Rightarrow> 's \<Rightarrow> (panic + 's) option" where
  "fold_run f [] s = Some (Inr s)"
| "fold_run f (x # xs) s =
     (case f x s of
        None \<Rightarrow> None
      | Some (Inl e) \<Rightarrow> Some (Inl e)
      | Some (Inr s') \<Rightarrow> fold_run f xs s')"

text \<open>One statement \<^verbatim>\<open>g.doLos(ent.Stats.Sight(), bresenham(ex, ey, tx, ty), ent.los)\<close>.\<close>

definition cast_ray ::
  "store \<Rightarrow> Game \<Rightarrow> int \<Rightarrow> int \<Rightarrow> int \<Rightarrow> int \<times> int \<Rightarrow> cell_map \<Rightarrow> (panic + cell_map) option"
where
  "cast_ray h g sight ex ey t los' =
     (case bresenham ex ey (fst t) (snd t) of
        None \<Rightarrow> None
      | Some line \<Rightarrow> Some (doLos h g sight line los'))"

text \<open>
  \<^verbatim>\<open>func (g *Game) DetermineLos(ent *Entity, force bool)\<close>, which returns the entity as
  it has updated it. Each of the two loops casts two rays per round.
\<close>

definition DetermineLos :: "store \<Rightarrow> Game \<Rightarrow> Entity \<Rightarrow> bool \<Rightarrow> (panic + Entity) option" where
  "DetermineLos h g ent force =
     (case EntPos ent of (ex, ey) \<Rightarrow>
        if \<not> force \<and> ex = losx ent \<and> ey = losy ent then Some (Inr ent)
        else
          (let ent = ent\<lparr>los := [], losx := ex, losy := ey\<rparr>;
               minx = ex - Sight ent;
               miny = ey - Sight ent;
               maxx = ex + Sight ent;
               maxy = ey + Sight ent
           in case fold_run (\<lambda>x los'. fold_run (cast_ray h g (Sight ent) ex ey)
                                        [(x, miny), (x, maxy)] los')
                     [minx..maxx] (los ent) of
                None \<Rightarrow> None
              | Some (Inl e) \<Rightarrow> Some (Inl e)
              | Some (Inr los1) \<Rightarrow>
                  (case fold_run (\<lambda>y los'. fold_run (cast_ray h g (Sight ent) ex ey)
                                            [(minx, y), (maxx, y)] los')
                         [miny..maxy] los1 of
                     None \<Rightarrow> None
                   | Some (Inl e) \<Rightarrow> Some (Inl e)
                   | Some (Inr los2) \<Rightarrow>
                       (let elos = fold (\<lambda>p elos. map_store elos (fst p + 1, snd p + 1)) los2 []
                        in Some (Inr (ent\<lparr>los := elos\<rparr>))))))"

section \<open>Notions used to state and prove the properties\<close>

subsection \<open>Closed form of a rasterized line\<close>

text \<open>
  After \<open>k\<close> steps of the loop the minor coordinate has moved \<open>minor_steps dx dy err k\<close>
  times, and the \<open>k\<close>-th cell of the line is \<open>line_at \<dots> k\<close>; \<open>ray_cell\<close> is the \<open>k\<close>-th
  cell of \<^verbatim>\<open>bresenham(x, y, x2, y2)\<close> and \<open>ray_len\<close> the number of loop steps.
\<close>

definition line_cell :: "bool \<Rightarrow> int \<Rightarrow> int \<Rightarrow> cell" where
  "line_cell steep cx cy = (if \<not> steep then (cx, cy) else (cy, cx))"

definition minor_steps :: "int \<Rightarrow> int \<Rightarrow> int \<Rightarrow> nat \<Rightarrow> int" where
  "minor_steps dx dy err k = - ((err - int k * dy) div dx)"

definition line_at :: "bool \<Rightarrow> int \<Rightarrow> int \<Rightarrow> int \<Rightarrow> int \<Rightarrow> int \<Rightarrow> int \<Rightarrow> int \<Rightarrow> nat \<Rightarrow> cell" where
  "line_at steep dx dy xstep ystep cx cy err k =
     line_cell steep (cx + int k * xstep) (cy + ystep * minor_steps dx dy err k)"

definition ray_cell :: "int \<Rightarrow> int \<Rightarrow> int \<Rightarrow> int \<Rightarrow> nat \<Rightarrow> cell" where
  "ray_cell x y x2 y2 k =
     (if \<bar>y2 - y\<bar> > \<bar>x2 - x\<bar>
      then line_at True \<bar>y2 - y\<bar> \<bar>x2 - x\<bar> (if y2 < y then - 1 else 1) (if x2 < x then - 1 else 1)
             y x (\<bar>y2 - y\<bar> div 2) k
      else line_at False \<bar>x2 - x\<bar> \<bar>y2 - y\<bar> (if x2 < x then - 1 else 1) (if y2 < y then - 1 else 1)
             x y (\<bar>x2 - x\<bar> div 2) k)"

definition ray_len :: "int \<Rightarrow> int \<Rightarrow> int \<Rightarrow> int \<Rightarrow> nat" where
  "ray_len x y x2 y2 = nat (max \<bar>x2 - x\<bar> \<bar>y2 - y\<bar>)"

text \<open>The distance of two cells on the square grid (Chebyshev distance).\<close>

definition cheb :: "cell \<Rightarrow> cell \<Rightarrow> int" where
  "cheb p q = max \<bar>fst q - fst p\<bar> \<bar>snd q - snd p\<bar>"

text \<open>The lines on which the error term treats both directions alike.\<close>

definition mirrored :: "int \<Rightarrow> int \<Rightarrow> bool" where
  "mirrored n m = (odd n \<or> m = 0 \<or> m = n)"

text \<open>
  The facing that \<^verbatim>\<open>connected\<close> deduces from the room-relative coordinates, the
  coordinate it compares with a door's span, and whether a door covers it.
\<close>

definition deduced_facing :: "int \<Rightarrow> int \<Rightarrow> int \<Rightarrow> int \<Rightarrow> WallFacing option" where
  "deduced_facing x y x2 y2 =
     (if x = 0 \<and> x2 \<noteq> 0 then Some NearLeft
      else if y = 0 \<and> y2 \<noteq> 0 then Some NearRight
      else if x \<noteq> 0 \<and> x2 = 0 then Some FarRight
      else if y \<noteq> 0 \<and> y2 = 0 then Some FarLeft
      else None)"

definition wall_coord :: "WallFacing \<Rightarrow> int \<Rightarrow> int \<Rightarrow> int" where
  "wall_coord facing x y = (if facing = NearLeft \<or> facing = FarRight then y else x)"

definition covers :: "WallFacing \<Rightarrow> int \<Rightarrow> Door \<Rightarrow> bool" where
  "covers facing pos door = (Facing door = facing \<and> Pos door \<le> pos \<and> pos < Pos door + Width door)"

text \<open>
  The door search as the claim words it: the \<open>x\<close> coordinate for the facings NearLeft
  and FarRight, the \<open>y\<close> coordinate for NearRight and FarLeft.
\<close>

definition wall_coord_as_claimed :: "WallFacing \<Rightarrow> int \<Rightarrow> int \<Rightarrow> int" where
  "wall_coord_as_claimed facing x y = (if facing = NearLeft \<or> facing = FarRight then x else y)"

definition connected_as_claimed ::
  "store \<Rightarrow> room_ref \<Rightarrow> room_ref \<Rightarrow> int \<Rightarrow> int \<Rightarrow> int \<Rightarrow> int \<Rightarrow> bool" where
  "connected_as_claimed h r r2 x y x2 y2 =
     (case deduced_facing (x - X (h r)) (y - Y (h r)) (x2 - X (h r2)) (y2 - Y (h r2)) of
        None \<Rightarrow> False
      | Some facing \<Rightarrow>
          (case find (covers facing (wall_coord_as_claimed facing (x - X (h r)) (y - Y (h r))))
                  (Doors (h r)) of
             None \<Rightarrow> False
           | Some door \<Rightarrow> Opened door))"

text \<open>Two 5 by 5 rooms side by side, and a store that holds them.\<close>

definition plain_room :: "int \<Rightarrow> int \<Rightarrow> Door list \<Rightarrow> Room" where
  "plain_room x y doors =
     \<lparr>Size = \<lparr>Dx = 5, Dy = 5\<rparr>, Cell_data = replicate 5 (replicate 5 True),
      Furniture = [], Doors = doors, X = x, Y = y\<rparr>"

definition two_rooms :: "Room \<Rightarrow> Room \<Rightarrow> store" where
  "two_rooms a b = (\<lambda>r. if r = 0 then a else b)"

definition door_at :: "WallFacing \<Rightarrow> int \<Rightarrow> int \<Rightarrow> bool \<Rightarrow> Door" where
  "door_at facing pos width opened =
     \<lparr>Defname = ''door'', Width = width, Facing = facing, Pos = pos, Opened = opened\<rparr>"

text \<open>
  A room whose cell data has the shape of its size: \<^verbatim>\<open>Cell_data\<close> holds \<open>Dx\<close> columns
  of \<open>Dy\<close> cells each, and there is at least one cell.
\<close>

definition cells_match_size :: "Room \<Rightarrow> bool" where
  "cells_match_size room =
     (0 < Dx (Size room) \<and> 0 < Dy (Size room)
      \<and> int (length (Cell_data room)) = Dx (Size room)
      \<and> list_all (\<lambda>col. int (length col) = Dy (Size room)) (Cell_data room))"

text \<open>
  What claim C6 asks of a door: a position that is not negative, a span
  \<open>[Pos, Pos + Width)\<close> inside the wall of its facing, door-capable cells under the span,
  and no door of the room on the same facing whose span meets it.
\<close>

definition wall_length :: "Room \<Rightarrow> WallFacing \<Rightarrow> int" where
  "wall_length room facing =
     (if facing = FarLeft \<or> facing = NearRight then Dx (Size room) else Dy (Size room))"

definition wall_cell :: "Room \<Rightarrow> WallFacing \<Rightarrow> int \<Rightarrow> panic + bool" where
  "wall_cell room facing pos =
     (case facing of
        FarLeft \<Rightarrow> cell_at room pos (Dy (Size room) - 1)
      | NearRight \<Rightarrow> cell_at room pos 0
      | FarRight \<Rightarrow> cell_at room (Dx (Size room) - 1) pos
      | NearLeft \<Rightarrow> cell_at room 0 pos)"

definition spans_meet :: "Door \<Rightarrow> Door \<Rightarrow> bool" where
  "spans_meet a b = (max (Pos a) (Pos b) < min (Pos a + Width a) (Pos b + Width b))"

definition door_fits_as_claimed :: "Room \<Rightarrow> Door \<Rightarrow> bool" where
  "door_fits_as_claimed room door =
     (0 \<le> Pos door
      \<and> Pos door + Width door \<le> wall_length room (Facing door)
      \<and> list_all (\<lambda>pos. wall_cell room (Facing door) pos = Inr True)
           [Pos door .. Pos door + Width door - 1]
      \<and> list_all (\<lambda>other. \<not> (Facing other = Facing door \<and> spans_meet door other)) (Doors room))"

text \<open>The cells of the window of a texture, and the cells a list of entities sees.\<close>

definition in_region :: "LosTexture \<Rightarrow> cell \<Rightarrow> bool" where
  "in_region lt p =
     (case Region lt of (ltx, lty, ltx2, lty2) \<Rightarrow>
        ltx \<le> fst p \<and> fst p \<le> ltx2 \<and> lty \<le> snd p \<and> snd p \<le> lty2)"

definition seen_by :: "Entity list \<Rightarrow> cell set" where
  "seen_by ents = (\<Union>ent \<in> set ents. set (los ent))"

text \<open>
  The bound of claim C8 on every byte of the field, and the operations on the field: the
  decay at the end of a \<^verbatim>\<open>Think\<close> with its \<open>dt\<close>, a call of \<^verbatim>\<open>MergeLos\<close> with its
  entities, and a whole \<^verbatim>\<open>Think\<close> (a tick), which merges and then decays.
\<close>

definition in_bounds :: "int \<Rightarrow> LosTexture \<Rightarrow> bool" where
  "in_bounds min_visibility lt =
     (\<forall>p. 0 \<le> pix lt p \<and> min_visibility \<le> pix lt p \<and> pix lt p \<le> 255)"

datatype field_op = Decay int | Merge "Entity list" | Tick int "Entity list"

fun field_step :: "int \<Rightarrow> int \<Rightarrow> field_op \<Rightarrow> LosTexture \<Rightarrow> LosTexture" where
  "field_step threshold min_visibility (Decay dt) lt = Think_decay threshold min_visibility dt lt"
| "field_step threshold min_visibility (Merge ents) lt = MergeLos threshold lt ents"
| "field_step threshold min_visibility (Tick dt ents) lt =
     Think_field threshold min_visibility dt lt ents"

definition field_steps :: "int \<Rightarrow> int \<Rightarrow> field_op list \<Rightarrow> LosTexture \<Rightarrow> LosTexture" where
  "field_steps threshold min_visibility ops lt = fold (field_step threshold min_visibility) ops lt"

text \<open>A texture for the examples: the window from \<open>(-1, -1)\<close> to \<open>(1, 1)\<close>.\<close>

definition small_texture :: "(cell \<Rightarrow> int) \<Rightarrow> LosTexture" where
  "small_texture f = \<lparr>pix = f, Region = (- 1, - 1, 1, 1)\<rparr>"

definition seeing :: "cell list \<Rightarrow> Entity" where
  "seeing cells = \<lparr>EntPos = (0, 0), Sight = 3, EntSide = Explorers, los = cells, losx = 0, losy = 0\<rparr>"

text \<open>
  The tests that the two loops of \<^verbatim>\<open>Adjacent\<close> share, for the step \<open>d = (dx, dy)\<close> from
  the cell \<open>(x, y)\<close> of \<open>room\<close>: \<open>Inr (Some (r, troom, tv))\<close> when the target cell is free
  of entities and furniture, lies in the room \<open>troom\<close>, has the vertex \<open>tv\<close> and is
  connected from the room \<open>r\<close> of the vertex; \<open>Inr None\<close> when one of the tests fails.
\<close>

definition passable ::
  "store \<Rightarrow> Game \<Rightarrow> room_ref option \<Rightarrow> int \<Rightarrow> int \<Rightarrow> cell_map \<Rightarrow> int \<times> int
     \<Rightarrow> panic + (room_ref \<times> room_ref \<times> int) option"
where
  "passable h g room x y occ d =
     (if map_lookup occ (x + fst d, y + snd d) then Inr None
      else
        case ToVertex h g (x + fst d) (y + snd d) of
          Inl e \<Rightarrow> Inl e
        | Inr tv \<Rightarrow>
            case FromVertex h g tv of
              Inl e \<Rightarrow> Inl e
            | Inr (None, _, _) \<Rightarrow> Inr None
            | Inr (Some troom, _, _) \<Rightarrow>
                if furnitureAt (h troom) (x + fst d - X (h troom)) (y + snd d - Y (h troom)) \<noteq> None
                then Inr None
                else
                  case room of
                    None \<Rightarrow> Inl NilDereference
                  | Some r \<Rightarrow>
                      if connected h r troom x y (x + fst d) (y + snd d)
                      then Inr (Some (r, troom, tv))
                      else Inr None)"

text \<open>
  The edges of \<^verbatim>\<open>Adjacent\<close>, said without the loops. A cardinal step is open when it
  passes the shared tests. A diagonal step is open when it passes them, the target
  room is connected back to the room of the vertex, and both cardinal steps that
  make it up are among the open cardinal steps \<open>cs\<close>.
\<close>

definition occupied :: "Game \<Rightarrow> cell_map" where
  "occupied g = fold (\<lambda>ent occ. map_store occ (EntPos ent)) (Ents g) []"

definition cardinal_open ::
  "store \<Rightarrow> Game \<Rightarrow> room_ref option \<Rightarrow> int \<Rightarrow> int \<Rightarrow> cell_map \<Rightarrow> int \<times> int \<Rightarrow> bool"
where
  "cardinal_open h g room x y occ d =
     ((fst d = 0) \<noteq> (snd d = 0)
      \<and> (case passable h g room x y occ d of Inr (Some e) \<Rightarrow> True | _ \<Rightarrow> False))"

definition connected_back ::
  "store \<Rightarrow> Game \<Rightarrow> room_ref option \<Rightarrow> int \<Rightarrow> int \<Rightarrow> cell_map \<Rightarrow> int \<times> int \<Rightarrow> bool"
where
  "connected_back h g room x y occ d =
     (case passable h g room x y occ d of
        Inr (Some (r, troom, tv)) \<Rightarrow> connected h troom r (x + fst d) (y + snd d) x y
      | _ \<Rightarrow> False)"

definition diagonal_open ::
  "store \<Rightarrow> Game \<Rightarrow> room_ref option \<Rightarrow> int \<Rightarrow> int \<Rightarrow> cell_map \<Rightarrow> (int \<times> int) list \<Rightarrow> int \<times> int \<Rightarrow> bool"
where
  "diagonal_open h g room x y occ cs d =
     (fst d \<noteq> 0 \<and> snd d \<noteq> 0
      \<and> connected_back h g room x y occ d
      \<and> (fst d, 0) \<in> set cs \<and> (0, snd d) \<in> set cs)"

definition edge_vertex ::
  "store \<Rightarrow> Game \<Rightarrow> room_ref option \<Rightarrow> int \<Rightarrow> int \<Rightarrow> cell_map \<Rightarrow> int \<times> int \<Rightarrow> int"
where
  "edge_vertex h g room x y occ d =
     (case passable h g room x y occ d of Inr (Some (r, troom, tv)) \<Rightarrow> tv | _ \<Rightarrow> 0)"

definition cardinal_weight :: "(int \<times> int) list \<Rightarrow> int \<times> int \<Rightarrow> real" where
  "cardinal_weight cs d = (if d \<in> set cs then 1 else 0)"

text \<open>For the examples: an entity at a cell, a room without doors, a game of one room.\<close>

definition entity_at :: "cell \<Rightarrow> int \<Rightarrow> Entity" where
  "entity_at pos sight =
     \<lparr>EntPos = pos, Sight = sight, EntSide = Explorers, los = [], losx = 0, losy = 0\<rparr>"

definition open_room :: "int \<Rightarrow> int \<Rightarrow> int \<Rightarrow> int \<Rightarrow> Furniture list \<Rightarrow> Room" where
  "open_room x y dx dy furniture =
     \<lparr>Size = \<lparr>Dx = dx, Dy = dy\<rparr>, Cell_data = replicate (nat dx) (replicate (nat dy) True),
      Furniture = furniture, Doors = [], X = x, Y = y\<rparr>"

definition one_room_game :: "Entity list \<Rightarrow> Game" where
  "one_room_game ents = \<lparr>Floors = [\<lparr>Rooms = [0]\<rparr>], Ents = ents\<rparr>"

text \<open>
  What stops a ray at a cell, as \<^verbatim>\<open>doLos\<close> tests it: the cell lies in no room of the floor
  (\<open>off_floor\<close>), or the piece of furniture that \<^verbatim>\<open>furnitureAt\<close> finds on it, the first
  one of the room that covers it, blocks sight (\<open>found_furniture_blocks\<close>). A ray \<open>line\<close>
  cast with the budget \<open>sight\<close> reaches its cell \<open>k\<close> when \<open>k\<close> is within the budget
  (the origin always is) and none of the cells \<open>1, \<dots>, k\<close> of the line stops it.
\<close>

definition off_floor :: "store \<Rightarrow> Game \<Rightarrow> cell \<Rightarrow> bool" where
  "off_floor h g p =
     (case floor0 g of
        Inl e \<Rightarrow> True
      | Inr f \<Rightarrow> roomAt h f (fst p) (snd p) = None)"

definition found_furniture_blocks :: "store \<Rightarrow> Game \<Rightarrow> cell \<Rightarrow> bool" where
  "found_furniture_blocks h g p =
     (case floor0 g of
        Inl e \<Rightarrow> False
      | Inr f \<Rightarrow>
          (case roomAt h f (fst p) (snd p) of
             None \<Rightarrow> False
           | Some rm \<Rightarrow>
               (case furnitureAt (h rm) (fst p - X (h rm)) (snd p - Y (h rm)) of
                  None \<Rightarrow> False
                | Some furn \<Rightarrow> Blocks_los furn)))"

definition reaches :: "store \<Rightarrow> Game \<Rightarrow> int \<Rightarrow> cell list \<Rightarrow> nat \<Rightarrow> bool" where
  "reaches h g sight line k =
     (k < length line \<and> int k < max 1 sight
      \<and> list_all (\<lambda>i. \<not> off_floor h g (line ! i) \<and> \<not> found_furniture_blocks h g (line ! i)) [1..<Suc k])"

definition shifted :: "cell \<Rightarrow> cell" where
  "shifted p = (fst p + 1, snd p + 1)"

text \<open>
  A cell holds sight-blocking furniture when some room of the floor covers it and some
  piece of furniture of that room, whatever its place in the list, covers it and
  blocks sight. This is what the specification calls a sight-blocking furniture tile.
  The two notions agree on a cell that one room at most and one piece of furniture per
  room at most cover (\<open>one_piece_per_cell\<close>).
\<close>

definition furniture_on :: "Furniture \<Rightarrow> int \<Rightarrow> int \<Rightarrow> bool" where
  "furniture_on furn x y =
     (case FurnPos furn of (fx, fy) \<Rightarrow> case FurnDims furn of (fdx, fdy) \<Rightarrow>
        x \<ge> fx \<and> x < fx + fdx \<and> y \<ge> fy \<and> y < fy + fdy)"

definition in_room :: "Room \<Rightarrow> cell \<Rightarrow> bool" where
  "in_room room p =
     (case Room_Pos room of (rx, ry) \<Rightarrow> case Room_Dims room of (rdx, rdy) \<Rightarrow>
        fst p \<ge> rx \<and> fst p < rx + rdx \<and> snd p \<ge> ry \<and> snd p < ry + rdy)"

definition pieces_on :: "Room \<Rightarrow> cell \<Rightarrow> Furniture list" where
  "pieces_on room p =
     filter (\<lambda>furn. furniture_on furn (fst p - X room) (snd p - Y room)) (Furniture room)"

definition rooms_on :: "store \<Rightarrow> Game \<Rightarrow> cell \<Rightarrow> room_ref list" where
  "rooms_on h g p =
     (case floor0 g of
        Inl e \<Rightarrow> []
      | Inr f \<Rightarrow> filter (\<lambda>room. in_room (h room) p) (Rooms f))"

definition holds_blocking_furniture :: "store \<Rightarrow> Game \<Rightarrow> cell \<Rightarrow> bool" where
  "holds_blocking_furniture h g p =
     list_ex (\<lambda>room. list_ex Blocks_los (pieces_on (h room) p)) (rooms_on h g p)"

definition one_piece_per_cell :: "store \<Rightarrow> Game \<Rightarrow> cell \<Rightarrow> bool" where
  "one_piece_per_cell h g p =
     (length (rooms_on h g p) \<le> 1
      \<and> list_all (\<lambda>room. length (pieces_on (h room) p) \<le> 1) (rooms_on h g p))"

text \<open>
  Claim C3 as it is worded, for the set \<open>vis\<close> that \<^verbatim>\<open>DetermineLos\<close> has computed. Its
  first half: on no ray that is cast is a cell beyond a sight-blocking furniture tile in
  the set (the cells of a ray are recorded with the shift). Its second half: no cell of
  the set is further from the entity than \<open>Sight\<close>, in the square that the rays span.
\<close>

definition nothing_seen_past_blocks :: "store \<Rightarrow> Game \<Rightarrow> Entity \<Rightarrow> cell_map \<Rightarrow> bool" where
  "nothing_seen_past_blocks h g ent vis =
     (\<forall>t line i j.
        cheb (EntPos ent) t = Sight ent
        \<and> bresenham (fst (EntPos ent)) (snd (EntPos ent)) (fst t) (snd t) = Some line
        \<and> i < j \<and> j < length line \<and> holds_blocking_furniture h g (line ! i)
        \<longrightarrow> shifted (line ! j) \<notin> set vis)"

definition nothing_seen_past_sight :: "Entity \<Rightarrow> cell_map \<Rightarrow> bool" where
  "nothing_seen_past_sight ent vis = list_all (\<lambda>q. cheb (EntPos ent) q \<le> Sight ent) vis"

text \<open>Furniture of one cell: a pillar, which blocks sight, and a rug, which does not.\<close>

definition pillar :: "cell \<Rightarrow> Furniture" where
  "pillar pos = \<lparr>FurnPos = pos, FurnDims = (1, 1), Blocks_los = True\<rparr>"

definition rug :: "cell \<Rightarrow> Furniture" where
  "rug pos = \<lparr>FurnPos = pos, FurnDims = (1, 1), Blocks_los = False\<rparr>"

text \<open>What one \<^verbatim>\<open>doLos\<close> call of \<^verbatim>\<open>DetermineLos\<close> can add to the map: a cell that the ray to \<open>t\<close> reaches.\<close>

definition ray_reaches :: "store \<Rightarrow> Game \<Rightarrow> int \<Rightarrow> cell \<Rightarrow> cell \<Rightarrow> cell \<Rightarrow> bool" where
  "ray_reaches h g s e t c =
     (\<exists>line k. bresenham (fst e) (snd e) (fst t) (snd t) = Some line
        \<and> c = line ! k \<and> reaches h g s line k)"

section \<open>Properties\<close>

subsection \<open>The rasterizer\<close>

lemma minor_steps_0: "0 \<le> err \<Longrightarrow> err < dx \<Longrightarrow> minor_steps dx dy err 0 = 0"
  by (simp add: minor_steps_def)

lemma minor_steps_Suc_neg:
  "0 < dx \<Longrightarrow> minor_steps dx dy (err - dy + dx) k = minor_steps dx dy err (Suc k) - 1"
proof -
  assume dx: "0 < dx"
  have "err - dy + dx - int k * dy = (err - int (Suc k) * dy) + dx"
    by (simp add: algebra_simps)
  then have "(err - dy + dx - int k * dy) div dx = (err - int (Suc k) * dy) div dx + 1"
    using dx by (simp only: div_add_self2 [of dx "err - int (Suc k) * dy"])
  then show ?thesis by (simp add: minor_steps_def)
qed

lemma minor_steps_Suc_pos:
  "minor_steps dx dy (err - dy) k = minor_steps dx dy err (Suc k)"
  by (simp add: minor_steps_def algebra_simps)

lemma bresenham_loop_stop:
  "bresenham_loop steep dx dy x2 xstep ystep x2 cy err ret = Some (ret, cy)"
  by (subst bresenham_loop.simps) simp

lemma bresenham_loop_step_neg:
  "cx \<noteq> x2 \<Longrightarrow> err - dy < 0 \<Longrightarrow>
   bresenham_loop steep dx dy x2 xstep ystep cx cy err ret =
   bresenham_loop steep dx dy x2 xstep ystep (cx + xstep) (cy + ystep) (err - dy + dx)
     (ret @ [line_cell steep cx cy])"
  by (subst bresenham_loop.simps) (simp add: Let_def line_cell_def)

lemma bresenham_loop_step_pos:
  "cx \<noteq> x2 \<Longrightarrow> \<not> err - dy < 0 \<Longrightarrow>
   bresenham_loop steep dx dy x2 xstep ystep cx cy err ret =
   bresenham_loop steep dx dy x2 xstep ystep (cx + xstep) cy (err - dy)
     (ret @ [line_cell steep cx cy])"
  by (subst bresenham_loop.simps) (simp add: Let_def line_cell_def)

lemma line_at_0: "0 \<le> err \<Longrightarrow> err < dx \<Longrightarrow>
   line_at steep dx dy xstep ystep cx cy err 0 = line_cell steep cx cy"
  by (simp add: line_at_def minor_steps_0)

lemma line_at_Suc_neg: "0 < dx \<Longrightarrow>
   line_at steep dx dy xstep ystep (cx + xstep) (cy + ystep) (err - dy + dx) k =
   line_at steep dx dy xstep ystep cx cy err (Suc k)"
  unfolding line_at_def minor_steps_Suc_neg
  by (simp add: right_diff_distrib distrib_right add.assoc add.left_commute)

lemma line_at_Suc_pos:
  "line_at steep dx dy xstep ystep (cx + xstep) cy (err - dy) k =
   line_at steep dx dy xstep ystep cx cy err (Suc k)"
  unfolding line_at_def minor_steps_Suc_pos
  by (simp add: distrib_right add.assoc add.left_commute)

lemma upt_0_Suc: "[0..<Suc n] = 0 # map Suc [0..<n]"
  by (simp add: upt_conv_Cons map_Suc_upt del: upt_Suc)

lemma bresenham_loop_closed:
  assumes "0 < dx" "0 \<le> dy" "dy \<le> dx" "0 \<le> err" "err < dx"
    and "xstep = 1 \<or> xstep = - 1" "x2 = cx + int n * xstep"
  shows "bresenham_loop steep dx dy x2 xstep ystep cx cy err ret =
    Some (ret @ map (line_at steep dx dy xstep ystep cx cy err) [0..<n],
          cy + ystep * minor_steps dx dy err n)"
  using assms
proof (induction n arbitrary: cx cy err ret)
  case 0
  then show ?case
    by (simp add: bresenham_loop_stop minor_steps_0)
next
  case (Suc n)
  have ne: "cx \<noteq> x2" using Suc.prems by auto
  have x2': "x2 = (cx + xstep) + int n * xstep"
    using Suc.prems by (simp add: algebra_simps)
  show ?case
  proof (cases "err - dy < 0")
    case True
    have e: "0 \<le> err - dy + dx" "err - dy + dx < dx"
      using True Suc.prems by auto
    have "bresenham_loop steep dx dy x2 xstep ystep cx cy err ret =
       Some ((ret @ [line_cell steep cx cy]) @
               map (line_at steep dx dy xstep ystep (cx + xstep) (cy + ystep) (err - dy + dx)) [0..<n],
          (cy + ystep) + ystep * minor_steps dx dy (err - dy + dx) n)"
      unfolding bresenham_loop_step_neg [OF ne True]
      by (rule Suc.IH [OF Suc.prems(1-3) e Suc.prems(6) x2'])
    also have "\<dots> = Some (ret @ map (line_at steep dx dy xstep ystep cx cy err) [0..<Suc n],
          cy + ystep * minor_steps dx dy err (Suc n))"
      using Suc.prems(1,4,5)
      by (simp add: upt_0_Suc line_at_Suc_neg line_at_0 minor_steps_Suc_neg comp_def
            right_diff_distrib del: upt_Suc)
    finally show ?thesis .
  next
    case False
    have e: "0 \<le> err - dy" "err - dy < dx"
      using False Suc.prems by auto
    have "bresenham_loop steep dx dy x2 xstep ystep cx cy err ret =
       Some ((ret @ [line_cell steep cx cy]) @
               map (line_at steep dx dy xstep ystep (cx + xstep) cy (err - dy)) [0..<n],
          cy + ystep * minor_steps dx dy (err - dy) n)"
      unfolding bresenham_loop_step_pos [OF ne False]
      by (rule Suc.IH [OF Suc.prems(1-3) e Suc.prems(6) x2'])
    also have "\<dots> = Some (ret @ map (line_at steep dx dy xstep ystep cx cy err) [0..<Suc n],
          cy + ystep * minor_steps dx dy err (Suc n))"
      using Suc.prems(1,4,5)
      by (simp add: upt_0_Suc line_at_Suc_pos line_at_0 minor_steps_Suc_pos comp_def
            del: upt_Suc)
    finally show ?thesis .
  qed
qed

lemma bresenham_main:
  assumes "0 \<le> dy" "dy \<le> dx" "dx = \<bar>x2 - x\<bar>" "xstep = (if x2 < x then - 1 else 1)"
  shows "(case bresenham_loop steep dx dy x2 xstep ystep x y (dx div 2) [] of
           None \<Rightarrow> None
         | Some (ret, cy) \<Rightarrow> Some (ret @ [if \<not> steep then (x2, cy) else (cy, x2)])) =
         Some (map (line_at steep dx dy xstep ystep x y (dx div 2)) [0..<Suc (nat dx)])"
proof (cases "dx = 0")
  case True
  then have "x2 = x" "dy = 0" using assms by auto
  then show ?thesis using True
    by (simp add: bresenham_loop_stop line_at_def line_cell_def minor_steps_def)
next
  case False
  then have dx: "0 < dx" using assms by auto
  have e: "0 \<le> dx div 2" "dx div 2 < dx" using dx by auto
  have st: "xstep = 1 \<or> xstep = - 1" using assms by auto
  have x2: "x2 = x + int (nat dx) * xstep" using assms dx by (auto simp: abs_if split: if_splits)
  have last: "(if \<not> steep then (x2, c) else (c, x2)) = line_cell steep (x + int (nat dx) * xstep) c" for c
    using x2 by (simp add: line_cell_def)
  show ?thesis
    unfolding bresenham_loop_closed [OF dx assms(1,2) e st x2]
    by (simp add: last line_at_def)
qed

lemma neg_abs_int: "(if (a::int) < 0 then - a else a) = \<bar>a\<bar>"
  by simp

lemma bresenham_closed:
  "bresenham x y x2 y2 = Some (map (ray_cell x y x2 y2) [0..<Suc (ray_len x y x2 y2)])"
proof (cases "\<bar>y2 - y\<bar> > \<bar>x2 - x\<bar>")
  case True
  have m: "max \<bar>x2 - x\<bar> \<bar>y2 - y\<bar> = \<bar>y2 - y\<bar>" using True by simp
  have rc: "ray_cell x y x2 y2 = line_at True \<bar>y2 - y\<bar> \<bar>x2 - x\<bar> (if y2 < y then - 1 else 1) (if x2 < x then - 1 else 1)
             y x (\<bar>y2 - y\<bar> div 2)"
    using True by (rule_tac ext) (simp add: ray_cell_def)
  have b: "bresenham x y x2 y2 =
     (case bresenham_loop True \<bar>y2 - y\<bar> \<bar>x2 - x\<bar> y2 (if y2 < y then - 1 else 1) (if x2 < x then - 1 else 1) y x (\<bar>y2 - y\<bar> div 2) [] of
           None \<Rightarrow> None
         | Some (ret, cy) \<Rightarrow> Some (ret @ [if \<not> True then (y2, cy) else (cy, y2)]))"
    using True by (simp add: bresenham_def Let_def neg_abs_int cong: option.case_cong)
  show ?thesis
    unfolding b rc ray_len_def m
    by (rule bresenham_main) (use True in auto)
next
  case False
  have m: "max \<bar>x2 - x\<bar> \<bar>y2 - y\<bar> = \<bar>x2 - x\<bar>" using False by simp
  have rc: "ray_cell x y x2 y2 = line_at False \<bar>x2 - x\<bar> \<bar>y2 - y\<bar> (if x2 < x then - 1 else 1) (if y2 < y then - 1 else 1)
             x y (\<bar>x2 - x\<bar> div 2)"
    using False by (rule_tac ext) (simp add: ray_cell_def)
  have b: "bresenham x y x2 y2 =
     (case bresenham_loop False \<bar>x2 - x\<bar> \<bar>y2 - y\<bar> x2 (if x2 < x then - 1 else 1) (if y2 < y then - 1 else 1) x y (\<bar>x2 - x\<bar> div 2) [] of
           None \<Rightarrow> None
         | Some (ret, cy) \<Rightarrow> Some (ret @ [if \<not> False then (x2, cy) else (cy, x2)]))"
    using False by (simp add: bresenham_def Let_def neg_abs_int cong: option.case_cong)
  show ?thesis
    unfolding b rc ray_len_def m
    by (rule bresenham_main) (use False in auto)
qed

lemma minor_steps_end:
  assumes "0 < dx" "0 \<le> err" "err < dx"
  shows "minor_steps dx dy err (nat dx) = dy"
proof -
  have "err - int (nat dx) * dy = err + (- dy) * dx" using assms by (simp add: algebra_simps)
  then have "(err - int (nat dx) * dy) div dx = - dy + err div dx"
    using assms by (simp only: div_mult_self1 [of dx err "- dy"])
  then show ?thesis using assms by (simp add: minor_steps_def)
qed

lemma minor_steps_step:
  assumes "0 < dx" "0 \<le> dy" "dy \<le> dx"
  shows "minor_steps dx dy err (Suc k) - minor_steps dx dy err k \<in> {0, 1}"
proof -
  define a where "a = err - int k * dy"
  have s: "err - int (Suc k) * dy = a - dy" by (simp add: a_def algebra_simps)
  have up: "(a - dy) div dx \<le> a div dx"
    using assms by (intro zdiv_mono1) auto
  have "(a - dx) div dx \<le> (a - dy) div dx"
    using assms by (intro zdiv_mono1) auto
  moreover have "(a - dx) div dx = a div dx - 1"
    using assms div_add_self2 [of dx "a - dx"] by simp
  ultimately have lo: "a div dx - 1 \<le> (a - dy) div dx" by simp
  show ?thesis
    unfolding minor_steps_def s a_def [symmetric] using up lo by auto
qed

lemma minor_steps_range:
  assumes "0 < dx" "0 \<le> dy" "dy \<le> dx" "0 \<le> err" "err < dx"
  shows "0 \<le> minor_steps dx dy err k \<and> minor_steps dx dy err k \<le> int k"
proof (induction k)
  case 0
  then show ?case using assms by (simp add: minor_steps_0)
next
  case (Suc k)
  then show ?case using minor_steps_step [OF assms(1-3), of err k] by auto
qed

lemma half_div_self: "0 \<le> (d::int) \<Longrightarrow> (d div 2) div d = 0"
  by (cases "d = 0") (auto intro: div_pos_pos_trivial)

lemma ray_cell_0: "ray_cell x y x2 y2 0 = (x, y)"
  by (simp add: ray_cell_def line_at_def line_cell_def minor_steps_def half_div_self)

lemma line_at_end:
  assumes "0 \<le> dy" "dy \<le> dx" "dx = \<bar>x2 - x\<bar>" "dy = \<bar>y2 - y\<bar>"
  shows "line_at steep dx dy (if x2 < x then - 1 else 1) (if y2 < y then - 1 else 1) x y (dx div 2) (nat dx)
         = line_cell steep x2 y2"
proof (cases "dx = 0")
  case True
  then show ?thesis using assms by (simp add: line_at_def minor_steps_def)
next
  case False
  then have dx: "0 < dx" using assms by auto
  have m: "minor_steps dx dy (dx div 2) (nat dx) = dy"
    using dx by (intro minor_steps_end) auto
  show ?thesis
    unfolding line_at_def m using assms dx by (auto simp: abs_if split: if_splits)
qed

lemma ray_cell_end: "ray_cell x y x2 y2 (ray_len x y x2 y2) = (x2, y2)"
proof (cases "\<bar>y2 - y\<bar> > \<bar>x2 - x\<bar>")
  case True
  have m: "max \<bar>x2 - x\<bar> \<bar>y2 - y\<bar> = \<bar>y2 - y\<bar>" using True by simp
  show ?thesis
    using True line_at_end [of "\<bar>x2 - x\<bar>" "\<bar>y2 - y\<bar>" y2 y x2 x True]
    by (simp add: ray_cell_def ray_len_def m line_cell_def)
next
  case False
  have m: "max \<bar>x2 - x\<bar> \<bar>y2 - y\<bar> = \<bar>x2 - x\<bar>" using False by simp
  show ?thesis
    using False line_at_end [of "\<bar>y2 - y\<bar>" "\<bar>x2 - x\<bar>" x2 x y2 y False]
    by (simp add: ray_cell_def ray_len_def m line_cell_def)
qed

lemma line_at_adjacent:
  assumes "0 < dx" "0 \<le> dy" "dy \<le> dx" "xstep = 1 \<or> xstep = - 1" "ystep = 1 \<or> ystep = - 1"
  shows "cheb (line_at steep dx dy xstep ystep cx cy err k)
              (line_at steep dx dy xstep ystep cx cy err (Suc k)) = 1"
proof -
  define m where "m = minor_steps dx dy err k"
  define m' where "m' = minor_steps dx dy err (Suc k)"
  have d: "m' - m = 0 \<or> m' - m = 1"
    using minor_steps_step [OF assms(1-3), of err k] by (simp add: m_def m'_def)
  have a: "\<bar>(cx + int (Suc k) * xstep) - (cx + int k * xstep)\<bar> = 1"
    using assms(4) by (auto simp: algebra_simps)
  have "(cy + ystep * m') - (cy + ystep * m) = ystep * (m' - m)"
    by (simp add: algebra_simps)
  then have b: "\<bar>(cy + ystep * m') - (cy + ystep * m)\<bar> \<le> 1"
    using d assms(5) by auto
  show ?thesis
    unfolding line_at_def m_def [symmetric] m'_def [symmetric] cheb_def line_cell_def
    using a b by (cases steep) (simp_all add: max_def)
qed

lemma ray_cell_adjacent:
  assumes "k < ray_len x y x2 y2"
  shows "cheb (ray_cell x y x2 y2 k) (ray_cell x y x2 y2 (Suc k)) = 1"
proof (cases "\<bar>y2 - y\<bar> > \<bar>x2 - x\<bar>")
  case True
  then show ?thesis
    unfolding ray_cell_def by (simp only: if_True) (rule line_at_adjacent; auto)
next
  case False
  moreover have "0 < \<bar>x2 - x\<bar>" using assms False by (auto simp: ray_len_def)
  ultimately show ?thesis
    unfolding ray_cell_def by (simp only: if_False) (rule line_at_adjacent; auto)
qed

lemma line_at_cheb:
  assumes "0 \<le> dy" "dy \<le> dx" "0 \<le> err" "err < dx \<or> dx = 0"
    "xstep = 1 \<or> xstep = - 1" "ystep = 1 \<or> ystep = - 1"
  shows "cheb (line_cell steep cx cy) (line_at steep dx dy xstep ystep cx cy err k) = int k"
proof -
  define m where "m = minor_steps dx dy err k"
  have r: "0 \<le> m \<and> m \<le> int k"
  proof (cases "dx = 0")
    case True
    then show ?thesis by (simp add: m_def minor_steps_def)
  next
    case False
    then show ?thesis unfolding m_def using assms by (intro minor_steps_range) auto
  qed
  have a: "\<bar>(cx + int k * xstep) - cx\<bar> = int k"
    using assms(5) by auto
  have b: "\<bar>(cy + ystep * m) - cy\<bar> \<le> int k"
    using r assms(6) by auto
  show ?thesis
    unfolding line_at_def m_def [symmetric] cheb_def line_cell_def
    using a b by (cases steep) (simp_all add: max_def)
qed

lemma ray_cell_cheb: "cheb (x, y) (ray_cell x y x2 y2 k) = int k"
proof (cases "\<bar>y2 - y\<bar> > \<bar>x2 - x\<bar>")
  case True
  have "cheb (line_cell True y x) (ray_cell x y x2 y2 k) = int k"
    using True unfolding ray_cell_def by (simp only: if_True) (rule line_at_cheb; auto)
  then show ?thesis by (simp add: line_cell_def)
next
  case False
  have "cheb (line_cell False x y) (ray_cell x y x2 y2 k) = int k"
    using False unfolding ray_cell_def by (simp only: if_False) (rule line_at_cheb; auto)
  then show ?thesis by (simp add: line_cell_def)
qed

text \<open>
  Claim C5. For every pair of endpoints \<^verbatim>\<open>bresenham(x0, y0, x1, y1)\<close> returns, and what it
  returns is a sequence of \<open>max(|x1 - x0|, |y1 - y0|) + 1\<close> cells that starts at
  \<open>(x0, y0)\<close>, ends at \<open>(x1, y1)\<close> and moves to a neighbouring cell (one that touches
  the last one by a side or a corner) at every step. In particular
  \<^verbatim>\<open>bresenham(x, y, x, y)\<close> is the single cell \<open>(x, y)\<close>, and \<^verbatim>\<open>bresenham(0, 0, 5, 0)\<close>
  is the six cells from \<open>(0, 0)\<close> to \<open>(5, 0)\<close>.
\<close>

theorem bresenham_cells:
  "(\<exists>cells. bresenham x0 y0 x1 y1 = Some cells
       \<and> length cells = nat (max \<bar>x1 - x0\<bar> \<bar>y1 - y0\<bar>) + 1
       \<and> hd cells = (x0, y0)
       \<and> last cells = (x1, y1)
       \<and> (\<forall>i. Suc i < length cells \<longrightarrow> cheb (cells ! i) (cells ! Suc i) = 1))
   \<and> bresenham x y x y = Some [(x, y)]
   \<and> bresenham 0 0 5 0 = Some [(0, 0), (1, 0), (2, 0), (3, 0), (4, 0), (5, 0)]"
proof (intro conjI)
  let ?n = "ray_len x0 y0 x1 y1"
  let ?cells = "map (ray_cell x0 y0 x1 y1) [0..<Suc ?n]"
  have "hd ?cells = (x0, y0)"
    by (simp add: hd_map ray_cell_0 upt_conv_Cons del: upt_Suc)
  moreover have "last ?cells = (x1, y1)"
    by (simp add: ray_cell_end)
  moreover have "length ?cells = nat (max \<bar>x1 - x0\<bar> \<bar>y1 - y0\<bar>) + 1"
    by (simp add: ray_len_def)
  moreover have "\<forall>i. Suc i < length ?cells \<longrightarrow> cheb (?cells ! i) (?cells ! Suc i) = 1"
  proof (intro allI impI)
    fix i assume "Suc i < length ?cells"
    then have i: "i < ?n" by simp
    then have "?cells ! i = ray_cell x0 y0 x1 y1 i" "?cells ! Suc i = ray_cell x0 y0 x1 y1 (Suc i)"
      by (simp_all add: nth_append del: upt_Suc)
    then show "cheb (?cells ! i) (?cells ! Suc i) = 1"
      using ray_cell_adjacent [OF i] by simp
  qed
  ultimately show "\<exists>cells. bresenham x0 y0 x1 y1 = Some cells
       \<and> length cells = nat (max \<bar>x1 - x0\<bar> \<bar>y1 - y0\<bar>) + 1
       \<and> hd cells = (x0, y0)
       \<and> last cells = (x1, y1)
       \<and> (\<forall>i. Suc i < length cells \<longrightarrow> cheb (cells ! i) (cells ! Suc i) = 1)"
    using bresenham_closed [of x0 y0 x1 y1] by blast
next
  show "bresenham x y x y = Some [(x, y)]"
    by (simp add: bresenham_closed ray_len_def ray_cell_0)
next
  show "bresenham 0 0 5 0 = Some [(0, 0), (1, 0), (2, 0), (3, 0), (4, 0), (5, 0)]"
    by code_simp
qed

text \<open>The theorem at the line from \<open>(0, 0)\<close> to \<open>(5, 2)\<close> and at the point \<open>(7, -3)\<close>.\<close>

theorem bresenham_cells_witness:
  "bresenham 0 0 5 2 = Some [(0, 0), (1, 0), (2, 1), (3, 1), (4, 2), (5, 2)]
   \<and> length [(0, 0), (1, 0), (2, 1), (3, 1), (4, 2), (5 :: int, 2 :: int)] = nat (max \<bar>5 - 0\<bar> \<bar>2 - 0\<bar>) + 1
   \<and> cheb (1, 0) (2, 1) = 1
   \<and> bresenham 7 (- 3) 7 (- 3) = Some [(7, - 3)]"
proof -
  have b: "bresenham 0 0 5 2 = Some [(0, 0), (1, 0), (2, 1), (3, 1), (4, 2), (5, 2)]"
    by code_simp
  obtain cells where c: "bresenham 0 0 5 2 = Some cells"
     "\<forall>i. Suc i < length cells \<longrightarrow> cheb (cells ! i) (cells ! Suc i) = 1"
     "length cells = nat (max \<bar>5 - 0\<bar> \<bar>2 - 0\<bar>) + 1"
    using bresenham_cells [of 0 0 5 2 0 0] by blast
  have cs: "cells = [(0, 0), (1, 0), (2, 1), (3, 1), (4, 2), (5, 2)]"
    using b c(1) by simp
  have "Suc 1 < length cells \<longrightarrow> cheb (cells ! 1) (cells ! Suc 1) = 1"
    using c(2) by blast
  then have "cheb (1, 0) (2, 1) = 1" by (simp add: cs)
  moreover have "bresenham 7 (- 3) 7 (- 3) = Some [(7, - 3)]"
    using bresenham_cells [of 0 0 0 0 7 "- 3"] by blast
  ultimately show ?thesis using b c(3) cs by simp
qed

lemma ray_len_sym: "ray_len c d a b = ray_len a b c d"
  by (simp add: ray_len_def abs_minus_commute)

lemma minor_steps_mirror:
  assumes "0 < n" "k \<le> nat n" "(e + int k * dy) div n = - ((e - int k * dy) div n)"
  shows "minor_steps n dy e (nat n - k) + minor_steps n dy e k = dy"
proof -
  have "e - int (nat n - k) * dy = (e + int k * dy) + (- dy) * n"
    using assms(1,2) by (simp add: algebra_simps of_nat_diff)
  then have "(e - int (nat n - k) * dy) div n = - dy + (e + int k * dy) div n"
    by (simp only: div_mult_self1 [OF less_imp_neq [OF assms(1), symmetric]])
  then show ?thesis using assms(3) by (simp add: minor_steps_def)
qed

lemma mirror_odd:
  assumes "0 < (n::int)" "odd n"
  shows "(n div 2 + t) div n = - ((n div 2 - t) div n)"
proof -
  define q where "q = (n div 2 - t) div n"
  define r where "r = (n div 2 - t) mod n"
  have r: "0 \<le> r" "r < n" using assms(1) by (simp_all add: r_def)
  have e: "n div 2 - t = n * q + r" by (simp add: q_def r_def)
  have h: "2 * (n div 2) = n - 1" using assms(2) by presburger
  have "n div 2 + t = n * (- q) + (n - 1 - r)" using e h by (simp add: algebra_simps)
  moreover have "0 \<le> n - 1 - r" "n - 1 - r < n" using r by auto
  ultimately have "(n div 2 + t) div n = - q" by (rule int_div_pos_eq)
  then show ?thesis by (simp add: q_def)
qed

lemma mirror_axis:
  assumes "0 < (n::int)"
  shows "(n div 2 + int k * 0) div n = - ((n div 2 - int k * 0) div n)"
  using assms by (simp add: half_div_self)

lemma mirror_diagonal:
  assumes "0 < (n::int)"
  shows "(n div 2 + int k * n) div n = - ((n div 2 - int k * n) div n)"
proof -
  have a: "(n div 2 + int k * n) div n = int k + (n div 2) div n"
    using assms by (simp only: div_mult_self1 [OF less_imp_neq [OF assms, symmetric]])
  have "n div 2 - int k * n = n div 2 + (- int k) * n" by simp
  then have b: "(n div 2 - int k * n) div n = - int k + (n div 2) div n"
    by (simp only: div_mult_self1 [OF less_imp_neq [OF assms, symmetric]])
  show ?thesis using assms by (simp add: a b half_div_self)
qed

lemma mirrored_div:
  assumes "0 < n" "mirrored n m"
  shows "(n div 2 + int k * m) div n = - ((n div 2 - int k * m) div n)"
  using assms mirror_odd [of n "int k * m"] mirror_axis [of n k] mirror_diagonal [of n k]
  unfolding mirrored_def by blast

lemma line_at_mirror:
  assumes "0 \<le> dy" "dy \<le> dx" "dx = \<bar>x2 - x\<bar>" "dy = \<bar>y2 - y\<bar>" "k \<le> nat dx" "mirrored dx dy"
  shows "line_at steep dx dy (if x2 < x then - 1 else 1) (if y2 < y then - 1 else 1) x y (dx div 2) (nat dx - k)
       = line_at steep dx dy (if x < x2 then - 1 else 1) (if y < y2 then - 1 else 1) x2 y2 (dx div 2) k"
proof (cases "dx = 0")
  case True
  then show ?thesis using assms by (simp add: line_at_def minor_steps_def)
next
  case False
  then have dx: "0 < dx" using assms by auto
  have m: "minor_steps dx dy (dx div 2) (nat dx - k) = dy - minor_steps dx dy (dx div 2) k"
    using minor_steps_mirror [OF dx assms(5) mirrored_div [OF dx assms(6)]] by simp
  have k: "int (nat dx - k) = dx - int k" using assms(5) dx by (simp add: of_nat_diff)
  have z: "dy = 0 \<Longrightarrow> minor_steps dx dy (dx div 2) k = 0"
    using dx by (simp add: minor_steps_def half_div_self)
  have "x + (dx - int k) * (if x2 < x then - 1 else 1) = x2 + int k * (if x < x2 then - 1 else 1)"
    using assms(3) dx by (auto simp: abs_if algebra_simps split: if_splits)
  moreover have "y + (if y2 < y then - 1 else 1) * (dy - minor_steps dx dy (dx div 2) k)
      = y2 + (if y < y2 then - 1 else 1) * minor_steps dx dy (dx div 2) k"
    using assms(4) z by (auto simp: abs_if algebra_simps split: if_splits)
  ultimately show ?thesis
    unfolding line_at_def m k by simp
qed

lemma ray_cell_mirror:
  assumes "k \<le> ray_len a b c d"
    and "mirrored (max \<bar>c - a\<bar> \<bar>d - b\<bar>) (min \<bar>c - a\<bar> \<bar>d - b\<bar>)"
  shows "ray_cell a b c d (ray_len a b c d - k) = ray_cell c d a b k"
proof (cases "\<bar>d - b\<bar> > \<bar>c - a\<bar>")
  case True
  have m: "max \<bar>c - a\<bar> \<bar>d - b\<bar> = \<bar>d - b\<bar>" "min \<bar>c - a\<bar> \<bar>d - b\<bar> = \<bar>c - a\<bar>" using True by simp_all
  have s: "\<bar>b - d\<bar> > \<bar>a - c\<bar>" using True by (simp add: abs_minus_commute)
  have "line_at True \<bar>d - b\<bar> \<bar>c - a\<bar> (if d < b then - 1 else 1) (if c < a then - 1 else 1) b a (\<bar>d - b\<bar> div 2) (nat \<bar>d - b\<bar> - k)
       = line_at True \<bar>d - b\<bar> \<bar>c - a\<bar> (if b < d then - 1 else 1) (if a < c then - 1 else 1) d c (\<bar>d - b\<bar> div 2) k"
    using True assms by (intro line_at_mirror) (auto simp: ray_len_def m)
  then show ?thesis
    using True s by (simp add: ray_cell_def ray_len_def m abs_minus_commute [of a c] abs_minus_commute [of b d])
next
  case False
  have m: "max \<bar>c - a\<bar> \<bar>d - b\<bar> = \<bar>c - a\<bar>" "min \<bar>c - a\<bar> \<bar>d - b\<bar> = \<bar>d - b\<bar>" using False by simp_all
  have s: "\<not> \<bar>b - d\<bar> > \<bar>a - c\<bar>" using False by (simp add: abs_minus_commute)
  have "line_at False \<bar>c - a\<bar> \<bar>d - b\<bar> (if c < a then - 1 else 1) (if d < b then - 1 else 1) a b (\<bar>c - a\<bar> div 2) (nat \<bar>c - a\<bar> - k)
       = line_at False \<bar>c - a\<bar> \<bar>d - b\<bar> (if a < c then - 1 else 1) (if b < d then - 1 else 1) c d (\<bar>c - a\<bar> div 2) k"
    using False assms by (intro line_at_mirror) (auto simp: ray_len_def m)
  then show ?thesis
    using False s by (simp add: ray_cell_def ray_len_def m abs_minus_commute [of a c] abs_minus_commute [of b d])
qed

lemma rev_ray:
  assumes "mirrored (max \<bar>c - a\<bar> \<bar>d - b\<bar>) (min \<bar>c - a\<bar> \<bar>d - b\<bar>)"
  shows "rev (map (ray_cell a b c d) [0..<Suc (ray_len a b c d)])
       = map (ray_cell c d a b) [0..<Suc (ray_len c d a b)]"
proof (rule nth_equalityI)
  show "length (rev (map (ray_cell a b c d) [0..<Suc (ray_len a b c d)]))
      = length (map (ray_cell c d a b) [0..<Suc (ray_len c d a b)])"
    by (simp add: ray_len_sym)
next
  fix i
  assume "i < length (rev (map (ray_cell a b c d) [0..<Suc (ray_len a b c d)]))"
  then have i: "i \<le> ray_len a b c d" by simp
  have "rev (map (ray_cell a b c d) [0..<Suc (ray_len a b c d)]) ! i
       = ray_cell a b c d (ray_len a b c d - i)"
    using i by (simp add: rev_nth nth_append del: upt_Suc)
  moreover have "map (ray_cell c d a b) [0..<Suc (ray_len c d a b)] ! i = ray_cell c d a b i"
    using i by (simp add: ray_len_sym nth_append del: upt_Suc)
  ultimately show "rev (map (ray_cell a b c d) [0..<Suc (ray_len a b c d)]) ! i
       = map (ray_cell c d a b) [0..<Suc (ray_len c d a b)] ! i"
    using ray_cell_mirror [OF i assms] by simp
qed

text \<open>
  Claim C9, as amended. The claim as it is written equates the two reversed sequences,
  which start at different cells as soon as the endpoints differ; and read as
  "the reversed line is the line drawn backwards" it fails too, because the error term
  starts at \<open>dx div 2\<close> in both directions and breaks a tie to the same side. What
  holds: both calls return, the reversed sequence of \<^verbatim>\<open>bresenham(a, b, c, d)\<close> has the
  length, the first and the last cell of \<^verbatim>\<open>bresenham(c, d, a, b)\<close>, and the two are equal
  whenever the longer extent of the line is odd or the line is horizontal, vertical
  or an exact diagonal.
\<close>

theorem bresenham_reversed:
  "\<exists>cs ds. bresenham a b c d = Some cs \<and> bresenham c d a b = Some ds
     \<and> length (rev cs) = length ds \<and> hd (rev cs) = hd ds \<and> last (rev cs) = last ds
     \<and> (odd (max \<bar>c - a\<bar> \<bar>d - b\<bar>) \<or> a = c \<or> b = d \<or> \<bar>c - a\<bar> = \<bar>d - b\<bar> \<longrightarrow> rev cs = ds)"
proof -
  let ?cs = "map (ray_cell a b c d) [0..<Suc (ray_len a b c d)]"
  let ?ds = "map (ray_cell c d a b) [0..<Suc (ray_len c d a b)]"
  have "length (rev ?cs) = length ?ds" by (simp add: ray_len_sym)
  moreover have "hd (rev ?cs) = hd ?ds"
  proof -
    have "last ?cs = (c, d)" by (simp add: ray_cell_end)
    moreover have "hd ?ds = (c, d)"
      by (simp add: hd_map ray_cell_0 upt_conv_Cons del: upt_Suc)
    ultimately show ?thesis by (simp only: hd_rev)
  qed
  moreover have "last (rev ?cs) = last ?ds"
  proof -
    have "hd ?cs = (a, b)"
      by (simp add: hd_map ray_cell_0 upt_conv_Cons del: upt_Suc)
    moreover have "last ?ds = (a, b)" by (simp add: ray_cell_end)
    ultimately show ?thesis by (simp only: last_rev)
  qed
  moreover have "rev ?cs = ?ds"
    if "odd (max \<bar>c - a\<bar> \<bar>d - b\<bar>) \<or> a = c \<or> b = d \<or> \<bar>c - a\<bar> = \<bar>d - b\<bar>"
  proof -
    have "mirrored (max \<bar>c - a\<bar> \<bar>d - b\<bar>) (min \<bar>c - a\<bar> \<bar>d - b\<bar>)"
      using that unfolding mirrored_def by (auto simp: max_def min_def)
    then show ?thesis by (rule rev_ray)
  qed
  ultimately show ?thesis
    using bresenham_closed [of a b c d] bresenham_closed [of c d a b] by blast
qed

text \<open>
  The line from \<open>(0, 0)\<close> to \<open>(1, 0)\<close> refutes the claim as written, the line from
  \<open>(0, 0)\<close> to \<open>(2, 1)\<close> its reading with a single reversal.
\<close>

theorem bresenham_reversed_counterexample:
  "map_option rev (bresenham 0 0 1 0) \<noteq> map_option rev (bresenham 1 0 0 0)
   \<and> map_option rev (bresenham 0 0 2 1) \<noteq> bresenham 2 1 0 0"
  by code_simp

text \<open>The amended statement at the line from \<open>(0, 0)\<close> to \<open>(5, 2)\<close>, of odd extent 5.\<close>

theorem bresenham_reversed_witness:
  "odd (max \<bar>5 - 0\<bar> \<bar>2 - 0 :: int\<bar>)
   \<and> bresenham 0 0 5 2 = Some [(0, 0), (1, 0), (2, 1), (3, 1), (4, 2), (5, 2)]
   \<and> bresenham 5 2 0 0 = Some (rev [(0, 0), (1, 0), (2, 1), (3, 1), (4, 2), (5, 2)])"
proof -
  have o: "odd (max \<bar>5 - 0\<bar> \<bar>2 - 0 :: int\<bar>)" by simp
  have b: "bresenham 0 0 5 2 = Some [(0, 0), (1, 0), (2, 1), (3, 1), (4, 2), (5, 2)]"
    by code_simp
  obtain cs ds where c: "bresenham 0 0 5 2 = Some cs" "bresenham 5 2 0 0 = Some ds"
     "odd (max \<bar>5 - 0\<bar> \<bar>2 - 0 :: int\<bar>) \<or> (0::int) = 5 \<or> (0::int) = 2 \<or> \<bar>5 - 0\<bar> = \<bar>2 - 0 :: int\<bar> \<longrightarrow> rev cs = ds"
    using bresenham_reversed [of 0 0 5 2] by blast
  have "rev cs = ds" using c(3) o by blast
  then show ?thesis using o b c(1,2) by simp
qed

subsection \<open>Connectivity\<close>

lemma connected_doors_find:
  "connected_doors facing x y doors =
     (case find (covers facing (wall_coord facing x y)) doors of
        None \<Rightarrow> False
      | Some door \<Rightarrow> Opened door)"
  by (induction doors) (auto simp: covers_def wall_coord_def Let_def split: WallFacing.splits)

text \<open>
  Claim C2, as amended. For two distinct rooms \<^verbatim>\<open>connected\<close> deduces a facing from the
  room-relative coordinates and returns false when none of the four patterns matches;
  otherwise it searches the doors of the first room on that facing and tests coverage
  with the \<open>y\<close> coordinate for the facings NearLeft and FarRight and with the \<open>x\<close>
  coordinate for NearRight and FarLeft (the claim has the two the other way round). It
  returns the \<open>Opened\<close> flag of the first covering door, or false when there is none.
\<close>

theorem connected_door_search:
  assumes "r \<noteq> r2"
  shows "connected h r r2 x y x2 y2 =
     (case deduced_facing (x - X (h r)) (y - Y (h r)) (x2 - X (h r2)) (y2 - Y (h r2)) of
        None \<Rightarrow> False
      | Some facing \<Rightarrow>
          (case find (covers facing (wall_coord facing (x - X (h r)) (y - Y (h r)))) (Doors (h r)) of
             None \<Rightarrow> False
           | Some door \<Rightarrow> Opened door))"
  using assms
  by (simp add: connected_def deduced_facing_def Let_def connected_doors_find)

text \<open>
  A room at \<open>(0, 0)\<close> with an open door of width 1 at position 3 of its FarRight wall,
  and a room at \<open>(5, 0)\<close>. Stepping from \<open>(4, 3)\<close> to \<open>(5, 3)\<close> goes through the door, and
  \<^verbatim>\<open>connected\<close> says so; a search by the \<open>x\<close> coordinate, which is 4, finds no door.
\<close>

theorem connected_door_search_counterexample:
  "connected (two_rooms (plain_room 0 0 [door_at FarRight 3 1 True]) (plain_room 5 0 [])) 0 1 4 3 5 3
   \<and> \<not> connected_as_claimed
         (two_rooms (plain_room 0 0 [door_at FarRight 3 1 True]) (plain_room 5 0 [])) 0 1 4 3 5 3"
  by (simp add: connected_def connected_as_claimed_def deduced_facing_def covers_def
      wall_coord_as_claimed_def two_rooms_def plain_room_def door_at_def)

theorem connected_door_search_witness:
  "(0::nat) \<noteq> 1 \<and>
   connected (two_rooms (plain_room 0 0 [door_at FarRight 3 1 True]) (plain_room 5 0 [])) 0 1 4 3 5 3 = True"
  using connected_door_search [of 0 1 "two_rooms (plain_room 0 0 [door_at FarRight 3 1 True]) (plain_room 5 0 [])" 4 3 5 3]
  by (simp add: deduced_facing_def covers_def wall_coord_def two_rooms_def plain_room_def door_at_def)

text \<open>
  Claim C1 at a door in the corner of a wall. The room at \<open>(0, 0)\<close> has an open door of
  width 2 at position 0 of its FarRight wall; the room at \<open>(5, -2)\<close> has the other side
  of it, at position 2 of its NearLeft wall, and \<^verbatim>\<open>findMatchingDoor\<close> pairs the two.
  The door joins the cells \<open>(4, 0)\<close> and \<open>(4, 1)\<close> to \<open>(5, 0)\<close> and \<open>(5, 1)\<close>. From
  \<open>(4, 1)\<close> the step through the open door is connected, and so is the step back from
  \<open>(5, 0)\<close> to \<open>(4, 0)\<close>; but from \<open>(4, 0)\<close> to \<open>(5, 0)\<close> the room-relative \<open>y\<close> is 0 while
  the second room's is 2, the second test of the chain takes the step for one through
  the NearRight wall, and \<^verbatim>\<open>connected\<close> is false.
\<close>

theorem connected_open_door_corner:
  "findMatchingDoor
      (two_rooms (plain_room 0 0 [door_at FarRight 0 2 True]) (plain_room 5 (- 2) [door_at NearLeft 2 2 True]))
      \<lparr>Rooms = [0, 1]\<rparr> 0 (door_at FarRight 0 2 True) = Some (door_at NearLeft 2 2 True)
   \<and> connected
      (two_rooms (plain_room 0 0 [door_at FarRight 0 2 True]) (plain_room 5 (- 2) [door_at NearLeft 2 2 True]))
      0 1 4 1 5 1
   \<and> connected
      (two_rooms (plain_room 0 0 [door_at FarRight 0 2 True]) (plain_room 5 (- 2) [door_at NearLeft 2 2 True]))
      1 0 5 0 4 0
   \<and> \<not> connected
      (two_rooms (plain_room 0 0 [door_at FarRight 0 2 True]) (plain_room 5 (- 2) [door_at NearLeft 2 2 True]))
      0 1 4 0 5 0"
  by (simp add: findMatchingDoor_def connected_def two_rooms_def plain_room_def door_at_def)

subsection \<open>Door placement\<close>

text \<open>
  Claim C6 at a door that ends where its wall ends. In a 5 by 5 room without doors,
  all of whose cells are door-capable, a door of width 2 at position 3 of the FarLeft
  wall has the span \<open>[3, 5)\<close>: it meets every condition of the claim, and
  \<^verbatim>\<open>canAddDoor\<close> rejects it, since it compares \<open>Pos + Width >= Dx\<close> and would read the
  cell at \<open>Pos + Width\<close> too. The overlap test of the same function treats the span as
  half-open: beside a door of width 2 at position 0 it accepts one at position 2.
\<close>

theorem canAddDoor_wall_end:
  "door_fits_as_claimed (plain_room 0 0 []) (door_at FarLeft 3 2 False)
   \<and> Room_canAddDoor (plain_room 0 0 []) (door_at FarLeft 3 2 False) = Inr False
   \<and> Room_canAddDoor (plain_room 0 0 [door_at FarLeft 0 2 False]) (door_at FarLeft 2 2 False) = Inr True"
  by (simp add: door_fits_as_claimed_def wall_length_def wall_cell_def cell_at_def go_index_def
      Room_canAddDoor_def plain_room_def door_at_def upto.simps)

lemma cell_at_in_range:
  assumes "cells_match_size room" "0 \<le> i" "i < Dx (Size room)" "0 \<le> j" "j < Dy (Size room)"
  shows "cell_at room i j = Inr (Cell_data room ! nat i ! nat j)"
proof -
  have "int (length (Cell_data room)) = Dx (Size room)"
    using assms(1) by (simp add: cells_match_size_def)
  then have i: "nat i < length (Cell_data room)" "i < int (length (Cell_data room))"
    using assms(2,3) by linarith+
  then have "Cell_data room ! nat i \<in> set (Cell_data room)" by simp
  then have "int (length (Cell_data room ! nat i)) = Dy (Size room)"
    using assms(1) by (simp add: cells_match_size_def list_all_iff)
  then have j: "j < int (length (Cell_data room ! nat i))" using assms(4,5) by linarith
  show ?thesis using assms(2,4) i j by (simp add: cell_at_def go_index_def)
qed

lemma cells_along_x_in_range:
  assumes "cells_match_size room" "0 \<le> y" "y < Dy (Size room)"
  shows "0 \<le> pos \<Longrightarrow> hi < Dx (Size room) \<Longrightarrow>
     cells_along_x room y pos hi = Inr (list_all (\<lambda>p. cell_at room p y = Inr True) [pos..hi])"
proof (induction "nat (hi + 1 - pos)" arbitrary: pos)
  case 0
  then have "\<not> pos \<le> hi" by simp
  then show ?case by (subst cells_along_x.simps) simp
next
  case (Suc n)
  then have le: "pos \<le> hi" by linarith
  have c: "cell_at room pos y = Inr (Cell_data room ! nat pos ! nat y)"
    using le Suc.prems assms by (intro cell_at_in_range) auto
  have ih: "cells_along_x room y (pos + 1) hi =
      Inr (list_all (\<lambda>p. cell_at room p y = Inr True) [pos + 1..hi])"
    using Suc.hyps(2) Suc.prems by (intro Suc.hyps(1)) auto
  show ?case
    using le c ih by (subst cells_along_x.simps) (simp add: upto_rec1 [of pos hi])
qed

lemma cells_along_y_in_range:
  assumes "cells_match_size room" "0 \<le> x" "x < Dx (Size room)"
  shows "0 \<le> pos \<Longrightarrow> hi < Dy (Size room) \<Longrightarrow>
     cells_along_y room x pos hi = Inr (list_all (\<lambda>p. cell_at room x p = Inr True) [pos..hi])"
proof (induction "nat (hi + 1 - pos)" arbitrary: pos)
  case 0
  then have "\<not> pos \<le> hi" by simp
  then show ?case by (subst cells_along_y.simps) simp
next
  case (Suc n)
  then have le: "pos \<le> hi" by linarith
  have c: "cell_at room x pos = Inr (Cell_data room ! nat x ! nat pos)"
    using le Suc.prems assms by (intro cell_at_in_range) auto
  have ih: "cells_along_y room x (pos + 1) hi =
      Inr (list_all (\<lambda>p. cell_at room x p = Inr True) [pos + 1..hi])"
    using Suc.hyps(2) Suc.prems by (intro Suc.hyps(1)) auto
  show ?case
    using le c ih by (subst cells_along_y.simps) (simp add: upto_rec1 [of pos hi])
qed

lemma no_overlap_spans:
  "no_overlap door doors =
     list_all (\<lambda>other. Facing other \<noteq> Facing door
        \<or> \<not> ((Pos door \<le> Pos other \<and> Pos other < Pos door + Width door)
             \<or> (Pos other \<le> Pos door \<and> Pos door < Pos other + Width other))) doors"
  by (induction doors) auto

text \<open>
  What \<^verbatim>\<open>canAddDoor\<close> of a room computes when the cell data has the shape of the room:
  the door must end before the last cell of its wall, the cells from \<open>Pos\<close> to
  \<open>Pos + Width\<close> inclusive must be door-capable, and no door of the same facing may
  start inside its span or hold its first cell.
\<close>

lemma Room_canAddDoor_eq:
  assumes "cells_match_size room"
  shows "Room_canAddDoor room door =
     Inr (0 \<le> Pos door
        \<and> Pos door + Width door < wall_length room (Facing door)
        \<and> list_all (\<lambda>pos. wall_cell room (Facing door) pos = Inr True)
             [Pos door .. Pos door + Width door]
        \<and> no_overlap door (Doors room))"
proof -
  have sz: "0 < Dx (Size room)" "0 < Dy (Size room)"
    using assms by (simp_all add: cells_match_size_def)
  have x0: "0 \<le> Pos door \<Longrightarrow> Pos door + Width door < Dx (Size room) \<Longrightarrow>
      cells_along_x room 0 (Pos door) (Pos door + Width door) =
        Inr (list_all (\<lambda>p. cell_at room p 0 = Inr True) [Pos door .. Pos door + Width door])"
    using sz by (intro cells_along_x_in_range [OF assms]) auto
  have x1: "0 \<le> Pos door \<Longrightarrow> Pos door + Width door < Dx (Size room) \<Longrightarrow>
      cells_along_x room (Dy (Size room) - 1) (Pos door) (Pos door + Width door) =
        Inr (list_all (\<lambda>p. cell_at room p (Dy (Size room) - 1) = Inr True) [Pos door .. Pos door + Width door])"
    using sz by (intro cells_along_x_in_range [OF assms]) auto
  have y0: "0 \<le> Pos door \<Longrightarrow> Pos door + Width door < Dy (Size room) \<Longrightarrow>
      cells_along_y room 0 (Pos door) (Pos door + Width door) =
        Inr (list_all (\<lambda>p. cell_at room 0 p = Inr True) [Pos door .. Pos door + Width door])"
    using sz by (intro cells_along_y_in_range [OF assms]) auto
  have y1: "0 \<le> Pos door \<Longrightarrow> Pos door + Width door < Dy (Size room) \<Longrightarrow>
      cells_along_y room (Dx (Size room) - 1) (Pos door) (Pos door + Width door) =
        Inr (list_all (\<lambda>p. cell_at room (Dx (Size room) - 1) p = Inr True) [Pos door .. Pos door + Width door])"
    using sz by (intro cells_along_y_in_range [OF assms]) auto
  show ?thesis
  proof (cases "Facing door")
    case NearLeft
    then show ?thesis using y0
      by (simp add: Room_canAddDoor_def wall_length_def wall_cell_def not_le)
  next
    case NearRight
    then show ?thesis using x0
      by (simp add: Room_canAddDoor_def wall_length_def wall_cell_def not_le)
  next
    case FarLeft
    then show ?thesis using x1
      by (simp add: Room_canAddDoor_def wall_length_def wall_cell_def not_le)
  next
    case FarRight
    then show ?thesis using y1
      by (simp add: Room_canAddDoor_def wall_length_def wall_cell_def not_le)
  qed
qed

text \<open>
  Claim C10. For a door whose facing is NearLeft or NearRight, \<^verbatim>\<open>findRoomForDoor\<close>
  never returns a room, whatever the floor holds, and so the \<^verbatim>\<open>canAddDoor\<close> of the
  floor never returns true: it returns \<^verbatim>\<open>(nil, nil)\<close>, and \<^verbatim>\<open>canAddDoor\<close> false, whenever
  the target room's own \<^verbatim>\<open>canAddDoor\<close> returns, which it does for every room whose
  cell data has the shape of its size (otherwise its cell lookup can panic).
\<close>

theorem findRoomForDoor_near_facing:
  assumes "Facing door = NearLeft \<or> Facing door = NearRight"
  shows "(cells_match_size (h target) \<longrightarrow>
            findRoomForDoor h registry f target door = Inr None
            \<and> Floor_canAddDoor h registry f target door = Inr False)
       \<and> (\<forall>found. findRoomForDoor h registry f target door \<noteq> Inr (Some found))
       \<and> Floor_canAddDoor h registry f target door \<noteq> Inr True"
proof -
  have far: "Facing door \<noteq> FarLeft" "Facing door \<noteq> FarRight"
    using assms by auto
  have ret: "findRoomForDoor h registry f target door = Inr None"
    if "Room_canAddDoor (h target) door = Inr ok" for ok
    using that far by (simp add: findRoomForDoor_def)
  have pan: "findRoomForDoor h registry f target door = Inl e"
    if "Room_canAddDoor (h target) door = Inl e" for e
    using that by (simp add: findRoomForDoor_def)
  have 1: "findRoomForDoor h registry f target door = Inr None
         \<and> Floor_canAddDoor h registry f target door = Inr False"
    if "cells_match_size (h target)"
    using ret [OF Room_canAddDoor_eq [OF that]] by (simp add: Floor_canAddDoor_def)
  have 2: "findRoomForDoor h registry f target door \<noteq> Inr (Some found)" for found
    using ret pan by (cases "Room_canAddDoor (h target) door") auto
  have 3: "Floor_canAddDoor h registry f target door \<noteq> Inr True"
    using ret pan by (cases "Room_canAddDoor (h target) door") (auto simp: Floor_canAddDoor_def)
  show ?thesis using 1 2 3 by blast
qed

text \<open>
  Two 5 by 5 rooms side by side, at \<open>(-5, 0)\<close> and at \<open>(0, 0)\<close>. The right room accepts
  a door on its NearLeft wall, the wall it shares with the left room, and the floor
  refuses it; the same opening asked for from the left room, on its FarRight wall, is
  found.
\<close>

theorem findRoomForDoor_near_facing_witness:
  "Room_canAddDoor (plain_room 0 0 []) (door_at NearLeft 1 1 False) = Inr True
   \<and> findRoomForDoor (two_rooms (plain_room (- 5) 0 []) (plain_room 0 0 [])) [''door'' \<mapsto> 1]
        \<lparr>Rooms = [0, 1]\<rparr> 1 (door_at NearLeft 1 1 False) = Inr None
   \<and> Floor_canAddDoor (two_rooms (plain_room (- 5) 0 []) (plain_room 0 0 [])) [''door'' \<mapsto> 1]
        \<lparr>Rooms = [0, 1]\<rparr> 1 (door_at NearLeft 1 1 False) = Inr False
   \<and> findRoomForDoor (two_rooms (plain_room (- 5) 0 []) (plain_room 0 0 [])) [''door'' \<mapsto> 1]
        \<lparr>Rooms = [0, 1]\<rparr> 0 (door_at FarRight 1 1 False) = Inr (Some (1, door_at NearLeft 1 1 False))"
proof -
  let ?h = "two_rooms (plain_room (- 5) 0 []) (plain_room 0 0 [])"
  have f: "Facing (door_at NearLeft 1 1 False) = NearLeft \<or> Facing (door_at NearLeft 1 1 False) = NearRight"
    by (simp add: door_at_def)
  have c: "cells_match_size (?h 1)"
    by (simp add: cells_match_size_def two_rooms_def plain_room_def list_all_iff)
  have a: "Room_canAddDoor (plain_room 0 0 []) (door_at NearLeft 1 1 False) = Inr True"
    by (simp add: Room_canAddDoor_def plain_room_def door_at_def cell_at_def go_index_def)
  have b: "findRoomForDoor ?h [''door'' \<mapsto> 1] \<lparr>Rooms = [0, 1]\<rparr> 0 (door_at FarRight 1 1 False)
         = Inr (Some (1, door_at NearLeft 1 1 False))"
    by (simp add: findRoomForDoor_def Room_canAddDoor_def MakeDoor_def two_rooms_def plain_room_def
        door_at_def cell_at_def go_index_def)
  show ?thesis
    using findRoomForDoor_near_facing [OF f, of ?h 1 "[''door'' \<mapsto> 1]" "\<lparr>Rooms = [0, 1]\<rparr>"] c a b
    by blast
qed

subsection \<open>The visibility field\<close>

lemma set_map_store: "set (map_store m p) = insert p (set m)"
  by (auto simp: map_store_def)

lemma set_fold_map_store: "set (fold (\<lambda>p merge. map_store merge p) ps m) = set ps \<union> set m"
  by (induction ps arbitrary: m) (auto simp: set_map_store)

lemma set_merge_fold:
  "set (fold (\<lambda>ent merge. fold (\<lambda>p merge. map_store merge p) (los ent) merge) ents m)
     = seen_by ents \<union> set m"
  by (induction ents arbitrary: m) (auto simp: set_fold_map_store seen_by_def)

lemma set_merge_of: "set (merge_of ents) = seen_by ents"
  by (simp add: merge_of_def set_merge_fold)

lemma map_lookup_set: "map_lookup m p = (p \<in> set m)"
  by (simp add: map_lookup_def)

lemma pix_update_cong: "(\<And>p. f p = g p) \<Longrightarrow> lt\<lparr>pix := f\<rparr> = lt\<lparr>pix := g\<rparr>"
  by (simp add: fun_eq_iff)

lemma show_fold:
  "fold (\<lambda>p lt. if Get lt (fst p) (snd p) < t then Set lt (fst p) (snd p) t else lt) m lt
     = lt\<lparr>pix := (\<lambda>p. if p \<in> set m \<and> pix lt p < t then t else pix lt p)\<rparr>"
proof (induction m arbitrary: lt)
  case Nil
  then show ?case by simp
next
  case (Cons a m)
  show ?case
    unfolding fold_simps Cons.IH
    by (cases "pix lt a < t") (auto simp: Get_def Set_def intro!: pix_update_cong)
qed

lemma MergeLos_show_eq:
  "MergeLos_show t m lt = lt\<lparr>pix := (\<lambda>p. if p \<in> set m \<and> pix lt p < t then t else pix lt p)\<rparr>"
  by (simp add: MergeLos_show_def show_fold)

lemma hide_row_fold:
  "fold (\<lambda>j lt. if map_lookup m (i, j) then lt
                 else if Get lt i j \<ge> t then Set lt i j (t - 1) else lt) js lt
     = lt\<lparr>pix := (\<lambda>p. if fst p = i \<and> snd p \<in> set js \<and> p \<notin> set m \<and> pix lt p \<ge> t
                        then t - 1 else pix lt p)\<rparr>"
proof (induction js arbitrary: lt)
  case Nil
  then show ?case by simp
next
  case (Cons j js)
  show ?case
    unfolding fold_simps Cons.IH
    by (auto simp: Get_def Set_def map_lookup_set intro!: pix_update_cong)
qed

lemma hide_fold:
  "fold (\<lambda>i lt. fold (\<lambda>j lt. if map_lookup m (i, j) then lt
                 else if Get lt i j \<ge> t then Set lt i j (t - 1) else lt) js lt) is lt
     = lt\<lparr>pix := (\<lambda>p. if fst p \<in> set is \<and> snd p \<in> set js \<and> p \<notin> set m \<and> pix lt p \<ge> t
                        then t - 1 else pix lt p)\<rparr>"
proof (induction "is" arbitrary: lt)
  case Nil
  then show ?case by simp
next
  case (Cons i "is")
  let ?row = "\<lambda>i lt. fold (\<lambda>j lt. if map_lookup m (i, j) then lt
                 else if Get lt i j \<ge> t then Set lt i j (t - 1) else lt) js lt"
  have "fold ?row (i # is) lt = fold ?row is (?row i lt)" by simp
  also have "\<dots> = (?row i lt)\<lparr>pix := (\<lambda>p. if fst p \<in> set is \<and> snd p \<in> set js \<and> p \<notin> set m
                        \<and> pix (?row i lt) p \<ge> t then t - 1 else pix (?row i lt) p)\<rparr>"
    by (rule Cons.IH)
  also have "\<dots> = lt\<lparr>pix := (\<lambda>p. if fst p \<in> set (i # is) \<and> snd p \<in> set js \<and> p \<notin> set m \<and> pix lt p \<ge> t
                        then t - 1 else pix lt p)\<rparr>"
    unfolding hide_row_fold by (auto intro!: pix_update_cong)
  finally show ?case .
qed

lemma MergeLos_hide_eq:
  "MergeLos_hide t m lt =
     lt\<lparr>pix := (\<lambda>p. if in_region lt p \<and> p \<notin> set m \<and> pix lt p \<ge> t then t - 1 else pix lt p)\<rparr>"
  by (cases "Region lt") (auto simp: MergeLos_hide_def hide_fold in_region_def intro!: pix_update_cong)

text \<open>
  \<^verbatim>\<open>MergeLos\<close> in one step: a cell that some entity sees is raised to the threshold
  when it is below; a cell of the window that no entity sees is dropped to
  \<open>threshold - 1\<close> when it is at or above; every other cell, and the window, stay.
\<close>

lemma MergeLos_eq:
  "MergeLos t lt ents =
     lt\<lparr>pix := (\<lambda>p. if p \<in> seen_by ents then (if pix lt p < t then t else pix lt p)
                     else if in_region lt p \<and> pix lt p \<ge> t then t - 1 else pix lt p)\<rparr>"
  by (auto simp: MergeLos_def Let_def MergeLos_show_eq MergeLos_hide_eq set_merge_of intro!: pix_update_cong)

lemma in_region_pix_update: "in_region (lt\<lparr>pix := f\<rparr>) p = in_region lt p"
  by (simp add: in_region_def)

text \<open>
  Claim C7. \<^verbatim>\<open>MergeLos\<close> is idempotent: a second call with entities that see the same
  cells (the same entities with unchanged \<open>los\<close> sets, in whatever order the maps are
  walked) leaves the field as the first call left it.
\<close>

theorem MergeLos_idempotent:
  assumes "seen_by ents' = seen_by ents"
  shows "MergeLos threshold (MergeLos threshold lt ents) ents' = MergeLos threshold lt ents"
  unfolding MergeLos_eq [of threshold _ ents'] assms
  unfolding MergeLos_eq [of threshold lt ents]
  by (auto simp: in_region_pix_update intro!: pix_update_cong)

text \<open>
  Two walks of the same \<open>los\<close> map, over a field in which \<open>(0, 0)\<close> is dark and every
  other cell bright: the first merge lights \<open>(0, 0)\<close>, keeps \<open>(1, 0)\<close>, fades the unseen
  \<open>(1, 1)\<close> of the window and leaves \<open>(5, 5)\<close> outside the window alone; the second
  changes nothing.
\<close>

theorem MergeLos_idempotent_witness:
  "seen_by [seeing [(1, 0), (0, 0)]] = seen_by [seeing [(0, 0), (1, 0)]]
   \<and> MergeLos 200 (MergeLos 200 (small_texture (\<lambda>p. if p = (0, 0) then 10 else 250))
          [seeing [(0, 0), (1, 0)]]) [seeing [(1, 0), (0, 0)]]
       = MergeLos 200 (small_texture (\<lambda>p. if p = (0, 0) then 10 else 250)) [seeing [(0, 0), (1, 0)]]
   \<and> map (pix (MergeLos 200 (small_texture (\<lambda>p. if p = (0, 0) then 10 else 250))
          [seeing [(0, 0), (1, 0)]])) [(0, 0), (1, 0), (1, 1), (5, 5)] = [200, 250, 199, 250]"
proof -
  have s: "seen_by [seeing [(1, 0), (0, 0)]] = seen_by [seeing [(0, 0), (1, 0)]]"
    by (auto simp: seen_by_def seeing_def)
  have v: "map (pix (MergeLos 200 (small_texture (\<lambda>p. if p = (0, 0) then 10 else 250))
          [seeing [(0, 0), (1, 0)]])) [(0, 0), (1, 0), (1, 1), (5, 5)] = [200, 250, 199, 250]"
    by (simp add: MergeLos_eq seen_by_def seeing_def small_texture_def in_region_def)
  show ?thesis
    using MergeLos_idempotent [OF s, of 200 "small_texture (\<lambda>p. if p = (0, 0) then 10 else 250)"] s v
    by blast
qed

lemma decay_cell_bounds:
  assumes "min_visibility \<le> 255"
  shows "0 \<le> decay_cell threshold min_visibility amt old
       \<and> min_visibility \<le> decay_cell threshold min_visibility amt old
       \<and> decay_cell threshold min_visibility amt old \<le> 255"
  using assms by (auto simp: decay_cell_def Let_def)

lemma decay_cell_byte:
  assumes "min_visibility \<le> 255"
  shows "decay_cell threshold min_visibility amt old mod 256 = decay_cell threshold min_visibility amt old"
  using decay_cell_bounds [OF assms, of threshold amt old] by simp

lemma fold_invariant:
  assumes "\<And>x s. P s \<Longrightarrow> P (f x s)" "P s"
  shows "P (fold f xs s)"
  using assms(2) by (induction xs arbitrary: s) (auto intro: assms(1))

lemma in_bounds_update:
  assumes "in_bounds m lt" "0 \<le> v" "m \<le> v" "v \<le> 255"
  shows "in_bounds m (lt\<lparr>pix := (pix lt)(c := v)\<rparr>)"
  using assms by (simp add: in_bounds_def)

lemma in_bounds_Remap: "in_bounds m (Remap lt x y) = in_bounds m lt"
  by (cases "Region lt") (simp add: Remap_def in_bounds_def)

lemma Think_decay_in_bounds:
  assumes "min_visibility \<le> 255" "in_bounds min_visibility lt"
  shows "in_bounds min_visibility (Think_decay threshold min_visibility dt lt)"
proof -
  obtain ltx lty ltx2 lty2 where r: "Region lt = (ltx, lty, ltx2, lty2)"
    by (cases "Region lt") auto
  define cell_step where "cell_step = (\<lambda>i j (s :: LosTexture \<times> bool).
      case s of (lt, changed) \<Rightarrow>
        (let v = decay_cell threshold min_visibility (go_div dt 5) (pix lt (i, j));
             changed = (changed \<or> v mod 256 \<noteq> pix lt (i, j))
         in (lt\<lparr>pix := (pix lt)((i, j) := v mod 256)\<rparr>, changed)))"
  define row_step where "row_step = (\<lambda>i (s :: LosTexture \<times> bool).
      case s of (lt, changed) \<Rightarrow> fold (cell_step i) [lty..lty2] (lt, changed))"
  have cell: "in_bounds min_visibility (fst (cell_step i j s))"
    if "in_bounds min_visibility (fst s)" for i j s
    using that decay_cell_bounds [OF assms(1)]
    by (cases s) (simp add: cell_step_def Let_def decay_cell_byte [OF assms(1)] in_bounds_update)
  have row: "in_bounds min_visibility (fst (row_step i s))"
    if "in_bounds min_visibility (fst s)" for i s
  proof -
    have "in_bounds min_visibility (fst (fold (cell_step i) [lty..lty2] s))"
      using that by (intro fold_invariant [where P = "\<lambda>s. in_bounds min_visibility (fst s)"] cell)
    then show ?thesis by (cases s) (simp add: row_step_def)
  qed
  have all: "in_bounds min_visibility (fst (fold row_step [ltx..ltx2] (lt, False)))"
    by (intro fold_invariant [where P = "\<lambda>s. in_bounds min_visibility (fst s)"] row)
      (use assms(2) in simp_all)
  have "Think_decay threshold min_visibility dt lt =
      (case fold row_step [ltx..ltx2] (lt, False) of
         (lt, changed) \<Rightarrow> if changed then Remap lt (- 20) (- 20) else lt)"
    by (simp add: Think_decay_def r Let_def row_step_def cell_step_def)
  then show ?thesis
    using all by (cases "fold row_step [ltx..ltx2] (lt, False)") (simp add: in_bounds_Remap)
qed

lemma MergeLos_in_bounds:
  assumes "min_visibility < threshold" "1 \<le> threshold" "threshold \<le> 255"
    "in_bounds min_visibility lt"
  shows "in_bounds min_visibility (MergeLos threshold lt ents)"
  using assms unfolding MergeLos_eq in_bounds_def by auto

text \<open>
  Claim C8. For constants with \<open>LosMinVisibility < LosVisibilityThreshold\<close> and a
  threshold that is a byte with a predecessor (\<open>1 \<le> threshold \<le> 255\<close>, which the
  code needs to compile: it passes \<open>threshold - 1\<close> as a byte), every byte of the field
  stays within \<open>[LosMinVisibility, 255]\<close> through any sequence of decay steps,
  \<^verbatim>\<open>MergeLos\<close> calls and whole ticks of \<^verbatim>\<open>Think\<close> that starts from a field within that
  bound.
\<close>

theorem field_stays_in_bounds:
  assumes "min_visibility < threshold" "1 \<le> threshold" "threshold \<le> 255"
    and "in_bounds min_visibility lt"
  shows "in_bounds min_visibility (field_steps threshold min_visibility ops lt)"
proof -
  have m: "min_visibility \<le> 255" using assms by simp
  have step: "in_bounds min_visibility (field_step threshold min_visibility op s)"
    if "in_bounds min_visibility s" for op s
    using that Think_decay_in_bounds [OF m] MergeLos_in_bounds [OF assms(1-3)]
    by (cases op) (simp_all add: Think_field_def)
  show ?thesis
    unfolding field_steps_def
    by (rule fold_invariant [where P = "in_bounds min_visibility"]) (use step assms(4) in auto)
qed

lemma upto_m1_1: "[- 1..1::int] = [- 1, 0, 1]"
  by code_simp

text \<open>
  The theorem with the threshold 200 and the minimum 32, on a field in which \<open>(0, 0)\<close>
  holds 40 and every other cell 250. A decay with \<open>dt = 50\<close> takes 10 from the dark
  cell, which stops at 32, and adds 10 to a bright one, which stops at 255; a merge in
  which nobody sees \<open>(1, 1)\<close> drops it to 199.
\<close>

theorem field_stays_in_bounds_witness:
  "(32 :: int) < 200 \<and> (1 :: int) \<le> 200 \<and> (200 :: int) \<le> 255
   \<and> in_bounds 32 (small_texture (\<lambda>p. if p = (0, 0) then 40 else 250))
   \<and> in_bounds 32 (field_steps 200 32 [Merge [seeing [(0, 0)]], Decay 50, Tick 16 [], Decay (- 7)]
         (small_texture (\<lambda>p. if p = (0, 0) then 40 else 250)))
   \<and> pix (field_steps 200 32 [Decay 50] (small_texture (\<lambda>p. if p = (0, 0) then 40 else 250))) (0, 0) = 32
   \<and> pix (field_steps 200 32 [Decay 50] (small_texture (\<lambda>p. if p = (0, 0) then 40 else 250))) (1, 1) = 255
   \<and> pix (field_steps 200 32 [Merge []] (small_texture (\<lambda>p. if p = (0, 0) then 40 else 250))) (1, 1) = 199"
proof -
  let ?lt = "small_texture (\<lambda>p. if p = (0, 0) then 40 else 250)"
  have b: "in_bounds 32 ?lt"
    by (simp add: in_bounds_def small_texture_def)
  have 1: "pix (field_steps 200 32 [Decay 50] ?lt) (0, 0) = 32"
    by (simp add: field_steps_def Think_decay_def small_texture_def go_div_def decay_cell_def
        Remap_def Let_def upto_m1_1)
  have 2: "pix (field_steps 200 32 [Decay 50] ?lt) (1, 1) = 255"
    by (simp add: field_steps_def Think_decay_def small_texture_def go_div_def decay_cell_def
        Remap_def Let_def upto_m1_1)
  have 3: "pix (field_steps 200 32 [Merge []] ?lt) (1, 1) = 199"
    by (simp add: field_steps_def MergeLos_def MergeLos_hide_def MergeLos_show_def merge_of_def
        small_texture_def map_lookup_def Get_def Set_def Let_def upto_m1_1)
  show ?thesis
    using field_stays_in_bounds [of 32 200 ?lt "[Merge [seeing [(0, 0)]], Decay 50, Tick 16 [], Decay (- 7)]"]
      b 1 2 3
    by simp
qed

subsection \<open>The movement graph\<close>

lemma Adjacent_cardinal_eq:
  "Adjacent_cardinal h g room x y occ d (adj, weight, moves) =
     (if (fst d = 0) = (snd d = 0) then Inr (adj, weight, moves)
      else
        case passable h g room x y occ d of
          Inl e \<Rightarrow> Inl e
        | Inr None \<Rightarrow> Inr (adj, weight, moves)
        | Inr (Some (r, troom, tv)) \<Rightarrow>
            Inr (adj @ [tv], weight @ [1], moves((fst d + 1, snd d + 1) := 1)))"
  by (cases d)
     (auto simp: Adjacent_cardinal_def passable_def Let_def
           split: sum.splits option.splits prod.splits)

lemma Adjacent_diagonal_eq:
  "Adjacent_diagonal h g room x y occ d (adj, weight, moves) =
     (if (fst d = 0) \<noteq> (snd d = 0) then Inr (adj, weight, moves)
      else
        case passable h g room x y occ d of
          Inl e \<Rightarrow> Inl e
        | Inr None \<Rightarrow> Inr (adj, weight, moves)
        | Inr (Some (r, troom, tv)) \<Rightarrow>
            if \<not> connected h troom r (x + fst d) (y + snd d) x y then Inr (adj, weight, moves)
            else if moves (fst d + 1, 1) = 0 \<or> moves (1, snd d + 1) = 0 then Inr (adj, weight, moves)
            else Inr (adj @ [tv], weight @ [(moves (fst d + 1, 1) + moves (1, snd d + 1)) / 2],
                      moves((fst d + 1, snd d + 1) := (moves (fst d + 1, 1) + moves (1, snd d + 1)) / 2)))"
  by (cases d)
     (auto simp: Adjacent_diagonal_def passable_def Let_def
           split: sum.splits option.splits prod.splits)

lemma cardinal_loop:
  assumes "fold_panic (Adjacent_cardinal h g room x y occ) ds (adj, w, mv) = Inr (adj', w', mv')"
  shows "adj' = adj @ map (edge_vertex h g room x y occ) (filter (cardinal_open h g room x y occ) ds)
       \<and> w' = w @ map (\<lambda>_. 1) (filter (cardinal_open h g room x y occ) ds)
       \<and> (\<forall>p. mv' p = (if \<exists>d \<in> set (filter (cardinal_open h g room x y occ) ds).
                                p = (fst d + 1, snd d + 1) then 1 else mv p))"
  using assms
proof (induction ds arbitrary: adj w mv)
  case Nil
  then show ?case by simp
next
  case (Cons d ds)
  show ?case
  proof (cases "cardinal_open h g room x y occ d")
    case True
    then obtain r troom tv where p: "passable h g room x y occ d = Inr (Some (r, troom, tv))"
      and c: "(fst d = 0) \<noteq> (snd d = 0)"
      by (auto simp: cardinal_open_def split: sum.splits option.splits)
    have st: "Adjacent_cardinal h g room x y occ d (adj, w, mv) =
        Inr (adj @ [tv], w @ [1], mv((fst d + 1, snd d + 1) := 1))"
      using p c by (simp add: Adjacent_cardinal_eq)
    have ev: "edge_vertex h g room x y occ d = tv"
      using p by (simp add: edge_vertex_def)
    have "fold_panic (Adjacent_cardinal h g room x y occ) ds
            (adj @ [tv], w @ [1], mv((fst d + 1, snd d + 1) := 1)) = Inr (adj', w', mv')"
      using Cons.prems st by simp
    from Cons.IH [OF this] show ?thesis
      using True ev by auto
  next
    case False
    have "Adjacent_cardinal h g room x y occ d (adj, w, mv) = Inr (adj, w, mv)
        \<or> (\<exists>e. Adjacent_cardinal h g room x y occ d (adj, w, mv) = Inl e)"
      using False
      by (auto simp: Adjacent_cardinal_eq cardinal_open_def split: sum.splits option.splits)
    then have "fold_panic (Adjacent_cardinal h g room x y occ) ds (adj, w, mv) = Inr (adj', w', mv')"
      using Cons.prems by auto
    from Cons.IH [OF this] show ?thesis
      using False by auto
  qed
qed

lemma diagonal_loop:
  assumes "fold_panic (Adjacent_diagonal h g room x y occ) ds (adj, w, mv) = Inr (adj', w', mv')"
    and "\<forall>a. mv (a + 1, 1) = cardinal_weight cs (a, 0) \<and> mv (1, a + 1) = cardinal_weight cs (0, a)"
    and "(0, 0) \<notin> set cs"
  shows "adj' = adj @ map (edge_vertex h g room x y occ) (filter (diagonal_open h g room x y occ cs) ds)
       \<and> w' = w @ map (\<lambda>d. (cardinal_weight cs (fst d, 0) + cardinal_weight cs (0, snd d)) / 2)
                     (filter (diagonal_open h g room x y occ cs) ds)"
  using assms(1,2)
proof (induction ds arbitrary: adj w mv)
  case Nil
  then show ?case by simp
next
  case (Cons d ds)
  have inv: "mv (fst d + 1, 1) = cardinal_weight cs (fst d, 0)"
            "mv (1, snd d + 1) = cardinal_weight cs (0, snd d)"
    using Cons.prems(2) by auto
  have nz: "(mv (fst d + 1, 1) = 0 \<or> mv (1, snd d + 1) = 0)
        \<longleftrightarrow> \<not> ((fst d, 0) \<in> set cs \<and> (0, snd d) \<in> set cs)"
    unfolding inv by (auto simp: cardinal_weight_def)
  have zero: "fst d = 0 \<Longrightarrow> snd d = 0 \<Longrightarrow> mv (fst d + 1, 1) = 0"
    unfolding inv using assms(3) by (simp add: cardinal_weight_def)
  show ?case
  proof (cases "diagonal_open h g room x y occ cs d")
    case True
    then obtain r troom tv where p: "passable h g room x y occ d = Inr (Some (r, troom, tv))"
      and b: "connected h troom r (x + fst d) (y + snd d) x y"
      and c: "fst d \<noteq> 0" "snd d \<noteq> 0" "(fst d, 0) \<in> set cs" "(0, snd d) \<in> set cs"
      by (auto simp: diagonal_open_def connected_back_def split: sum.splits option.splits)
    let ?w = "(cardinal_weight cs (fst d, 0) + cardinal_weight cs (0, snd d)) / 2"
    have st: "Adjacent_diagonal h g room x y occ d (adj, w, mv) =
        Inr (adj @ [tv], w @ [?w], mv((fst d + 1, snd d + 1) := ?w))"
      using p b c nz by (simp add: Adjacent_diagonal_eq inv)
    have ev: "edge_vertex h g room x y occ d = tv"
      using p by (simp add: edge_vertex_def)
    have f: "fold_panic (Adjacent_diagonal h g room x y occ) ds
            (adj @ [tv], w @ [?w], mv((fst d + 1, snd d + 1) := ?w)) = Inr (adj', w', mv')"
      using Cons.prems(1) st by simp
    have i: "\<forall>a. (mv((fst d + 1, snd d + 1) := ?w)) (a + 1, 1) = cardinal_weight cs (a, 0)
              \<and> (mv((fst d + 1, snd d + 1) := ?w)) (1, a + 1) = cardinal_weight cs (0, a)"
      using Cons.prems(2) c(1,2) by simp
    from Cons.IH [OF f i] show ?thesis
      using True ev by auto
  next
    case False
    have "Adjacent_diagonal h g room x y occ d (adj, w, mv) = Inr (adj, w, mv)
        \<or> (\<exists>e. Adjacent_diagonal h g room x y occ d (adj, w, mv) = Inl e)"
    proof (cases "(fst d = 0) \<noteq> (snd d = 0)")
      case True
      then show ?thesis by (simp add: Adjacent_diagonal_eq)
    next
      case same: False
      show ?thesis
      proof (cases "fst d = 0")
        case True
        then have "snd d = 0" using same by simp
        then show ?thesis
          using True zero
          by (auto simp: Adjacent_diagonal_eq split: sum.splits option.splits)
      next
        case fnz: False
        then have "snd d \<noteq> 0" using same by simp
        then show ?thesis
          using fnz False nz
          by (auto simp: Adjacent_diagonal_eq diagonal_open_def connected_back_def
                split: sum.splits option.splits)
      qed
    qed
    then have "fold_panic (Adjacent_diagonal h g room x y occ) ds (adj, w, mv) = Inr (adj', w', mv')"
      using Cons.prems(1) by auto
    from Cons.IH [OF this Cons.prems(2)] show ?thesis
      using False by auto
  qed
qed

lemma passable_SomeD:
  assumes "passable h g room x y occ d = Inr (Some (r, troom, tv))"
  shows "room = Some r \<and> ToVertex h g (x + fst d) (y + snd d) = Inr tv
       \<and> (\<exists>tx ty. FromVertex h g tv = Inr (Some troom, tx, ty))
       \<and> connected h r troom x y (x + fst d) (y + snd d)"
  using assms
  by (auto simp: passable_def split: if_splits sum.splits option.splits prod.splits)

lemma ToVertex_rooms_nonneg:
  assumes "\<forall>r \<in> set rooms. 0 \<le> Dx (Size (h r)) \<and> 0 \<le> Dy (Size (h r))" "0 \<le> v"
  shows "0 \<le> ToVertex_rooms h rooms x y v"
  using assms
proof (induction rooms arbitrary: v)
  case Nil
  then show ?case by simp
next
  case (Cons room rooms)
  have sz: "0 \<le> Dx (Size (h room))" "0 \<le> Dy (Size (h room))" using Cons.prems by auto
  show ?case
  proof (cases "x \<ge> X (h room) \<and> y \<ge> Y (h room)
         \<and> x < X (h room) + Dx (Size (h room)) \<and> y < Y (h room) + Dy (Size (h room))")
    case True
    have a: "0 \<le> x - X (h room)" using True by simp
    have b: "0 \<le> (y - Y (h room)) * Dx (Size (h room))"
      using True sz by (intro mult_nonneg_nonneg) auto
    have "ToVertex_rooms h (room # rooms) x y v =
        v + (x - X (h room) + (y - Y (h room)) * Dx (Size (h room)))"
      using True by (simp add: Let_def)
    then show ?thesis using a b Cons.prems(2) by linarith
  next
    case False
    have nn: "0 \<le> v + Dx (Size (h room)) * Dy (Size (h room))" using sz Cons.prems(2) by simp
    have rest: "\<forall>r \<in> set rooms. 0 \<le> Dx (Size (h r)) \<and> 0 \<le> Dy (Size (h r))"
      using Cons.prems(1) by simp
    have "ToVertex_rooms h (room # rooms) x y v =
        ToVertex_rooms h rooms x y (v + Dx (Size (h room)) * Dy (Size (h room)))"
      using False by auto
    then show ?thesis using Cons.IH [OF rest nn] by simp
  qed
qed

lemma FromVertex_rooms_returns:
  assumes "0 \<le> v"
  shows "\<exists>res. FromVertex_rooms h rooms v = Inr res"
  using assms
proof (induction rooms arbitrary: v)
  case Nil
  then show ?case by simp
next
  case (Cons room rooms)
  show ?case
  proof (cases "v \<ge> Dx (Size (h room)) * Dy (Size (h room))")
    case True
    then show ?thesis using Cons.IH [of "v - Dx (Size (h room)) * Dy (Size (h room))"]
      by (simp add: Let_def)
  next
    case False
    then have "Dx (Size (h room)) \<noteq> 0" using Cons.prems by auto
    then show ?thesis using False by (simp add: Let_def)
  qed
qed

lemma fold_panic_returns:
  assumes "\<And>x s. \<exists>s'. f x s = Inr s'"
  shows "\<exists>s'. fold_panic f xs s = Inr s'"
proof (induction xs arbitrary: s)
  case Nil
  then show ?case by simp
next
  case (Cons x xs)
  obtain s' where "f x s = Inr s'" using assms by blast
  then show ?case using Cons.IH [of s'] by simp
qed

lemma passable_returns:
  assumes "floor0 g = Inr f"
    and "\<forall>r \<in> set (Rooms f). 0 \<le> Dx (Size (h r)) \<and> 0 \<le> Dy (Size (h r))"
  shows "\<exists>res. passable h g (Some r0) x y occ d = Inr res"
proof -
  have tv: "ToVertex h g (x + fst d) (y + snd d) = Inr (ToVertex_rooms h (Rooms f) (x + fst d) (y + snd d) 0)"
    using assms(1) by (simp add: ToVertex_def)
  have "0 \<le> ToVertex_rooms h (Rooms f) (x + fst d) (y + snd d) 0"
    using assms(2) by (intro ToVertex_rooms_nonneg) auto
  then obtain res where "FromVertex h g (ToVertex_rooms h (Rooms f) (x + fst d) (y + snd d) 0) = Inr res"
    using FromVertex_rooms_returns assms(1) by (fastforce simp: FromVertex_def)
  then show ?thesis
    using tv by (auto simp: passable_def split: option.splits prod.splits)
qed

lemma Adjacent_returns:
  assumes "floor0 g = Inr f"
    and "\<forall>r \<in> set (Rooms f). 0 \<le> Dx (Size (h r)) \<and> 0 \<le> Dy (Size (h r))"
    and "FromVertex h g v = Inr (Some r0, x0, y0)"
  shows "\<exists>adj weight. Adjacent h g v = Inr (adj, weight)"
proof -
  let ?occ = "fold (\<lambda>ent occ. map_store occ (EntPos ent)) (Ents g) []"
  have c: "\<exists>s'. Adjacent_cardinal h g (Some r0) x0 y0 ?occ d s = Inr s'" for d s
    using passable_returns [OF assms(1,2), of r0 x0 y0 ?occ d]
    by (cases s) (auto simp: Adjacent_cardinal_eq split: option.splits)
  have d: "\<exists>s'. Adjacent_diagonal h g (Some r0) x0 y0 ?occ d s = Inr s'" for d s
    using passable_returns [OF assms(1,2), of r0 x0 y0 ?occ d]
    by (cases s) (auto simp: Adjacent_diagonal_eq split: option.splits)
  obtain s1 where s1: "fold_panic (Adjacent_cardinal h g (Some r0) x0 y0 ?occ) directions
      ([], [], \<lambda>_. 0) = Inr s1"
    using fold_panic_returns [of "Adjacent_cardinal h g (Some r0) x0 y0 ?occ", OF c] by blast
  obtain s2 where s2: "fold_panic (Adjacent_diagonal h g (Some r0) x0 y0 ?occ) directions s1 = Inr s2"
    using fold_panic_returns [of "Adjacent_diagonal h g (Some r0) x0 y0 ?occ", OF d] by blast
  show ?thesis
    using assms(3) s1 s2 by (cases s2) (simp add: Adjacent_def Let_def)
qed

text \<open>
  Claim C4. Whenever \<^verbatim>\<open>Adjacent(v)\<close> returns, its result is the open cardinal steps
  \<open>cs\<close> followed by the open diagonal steps \<open>ds\<close>, in the order of the loops, each
  cardinal edge with weight 1 and each diagonal edge with the average of the weights of
  the two cardinal steps that make it up. So a diagonal neighbour is returned only
  if both of these cardinal steps were added as edges (and their weights, hence its
  own, are 1), and only if the two rooms are connected from the cell to the diagonal
  cell and back. \<^verbatim>\<open>Adjacent(v)\<close> does return for every vertex of a room on a floor
  whose rooms have no negative size.
\<close>

theorem Adjacent_diagonal_edges:
  "(Adjacent h g v = Inr (adj, weight) \<longrightarrow>
      (\<exists>room x y cs ds.
          FromVertex h g v = Inr (room, x, y)
        \<and> cs = filter (cardinal_open h g room x y (occupied g)) directions
        \<and> ds = filter (diagonal_open h g room x y (occupied g) cs) directions
        \<and> adj = map (edge_vertex h g room x y (occupied g)) (cs @ ds)
        \<and> weight = map (\<lambda>_. 1) cs
              @ map (\<lambda>d. (cardinal_weight cs (fst d, 0) + cardinal_weight cs (0, snd d)) / 2) ds
        \<and> (\<forall>d \<in> set ds.
              fst d \<noteq> 0 \<and> snd d \<noteq> 0
            \<and> (fst d, 0) \<in> set cs \<and> (0, snd d) \<in> set cs
            \<and> cardinal_weight cs (fst d, 0) = 1 \<and> cardinal_weight cs (0, snd d) = 1
            \<and> (\<exists>r troom tv tx ty.
                  room = Some r
                \<and> ToVertex h g (x + fst d) (y + snd d) = Inr tv
                \<and> FromVertex h g tv = Inr (Some troom, tx, ty)
                \<and> connected h r troom x y (x + fst d) (y + snd d)
                \<and> connected h troom r (x + fst d) (y + snd d) x y))))
   \<and> (floor0 g = Inr f
        \<and> (\<forall>r \<in> set (Rooms f). 0 \<le> Dx (Size (h r)) \<and> 0 \<le> Dy (Size (h r)))
        \<and> FromVertex h g v = Inr (Some r0, x0, y0)
      \<longrightarrow> (\<exists>adj weight. Adjacent h g v = Inr (adj, weight)))"
proof (intro conjI impI)
  assume a: "Adjacent h g v = Inr (adj, weight)"
  obtain room x y where fv: "FromVertex h g v = Inr (room, x, y)"
    using a by (auto simp: Adjacent_def split: sum.splits)
  let ?occ = "occupied g"
  obtain adj1 w1 mv1 where l1: "fold_panic (Adjacent_cardinal h g room x y ?occ) directions
      ([], [], \<lambda>_. 0) = Inr (adj1, w1, mv1)"
    using a fv by (auto simp: Adjacent_def Let_def occupied_def split: sum.splits)
  then obtain mv2 where l2: "fold_panic (Adjacent_diagonal h g room x y ?occ) directions
      (adj1, w1, mv1) = Inr (adj, weight, mv2)"
    using a fv by (auto simp: Adjacent_def Let_def occupied_def split: sum.splits)
  define cs where "cs = filter (cardinal_open h g room x y ?occ) directions"
  define ds where "ds = filter (diagonal_open h g room x y ?occ cs) directions"
  note cl = cardinal_loop [OF l1]
  have c: "adj1 = map (edge_vertex h g room x y ?occ) cs" "w1 = map (\<lambda>_. 1) cs"
    using cl unfolding cs_def by simp_all
  have m: "\<forall>p. mv1 p = (if \<exists>d \<in> set cs. p = (fst d + 1, snd d + 1) then 1 else 0)"
    using cl unfolding cs_def by blast
  have inv: "\<forall>a. mv1 (a + 1, 1) = cardinal_weight cs (a, 0) \<and> mv1 (1, a + 1) = cardinal_weight cs (0, a)"
  proof (intro allI conjI)
    fix a :: int
    have "(\<exists>d \<in> set cs. (a + 1, 1) = (fst d + 1, snd d + 1)) \<longleftrightarrow> (a, 0) \<in> set cs"
      by (auto simp: prod_eq_iff) force
    then show "mv1 (a + 1, 1) = cardinal_weight cs (a, 0)"
      using m by (simp add: cardinal_weight_def)
    have "(\<exists>d \<in> set cs. (1, a + 1) = (fst d + 1, snd d + 1)) \<longleftrightarrow> (0, a) \<in> set cs"
      by (auto simp: prod_eq_iff) force
    then show "mv1 (1, a + 1) = cardinal_weight cs (0, a)"
      using m by (simp add: cardinal_weight_def)
  qed
  have z: "(0, 0) \<notin> set cs"
    by (auto simp: cs_def cardinal_open_def)
  have d: "adj = adj1 @ map (edge_vertex h g room x y ?occ) ds"
     "weight = w1 @ map (\<lambda>d. (cardinal_weight cs (fst d, 0) + cardinal_weight cs (0, snd d)) / 2) ds"
    using diagonal_loop [OF l2 inv z] by (simp_all add: ds_def)
  have each: "fst d \<noteq> 0 \<and> snd d \<noteq> 0
            \<and> (fst d, 0) \<in> set cs \<and> (0, snd d) \<in> set cs
            \<and> cardinal_weight cs (fst d, 0) = 1 \<and> cardinal_weight cs (0, snd d) = 1
            \<and> (\<exists>r troom tv tx ty.
                  room = Some r
                \<and> ToVertex h g (x + fst d) (y + snd d) = Inr tv
                \<and> FromVertex h g tv = Inr (Some troom, tx, ty)
                \<and> connected h r troom x y (x + fst d) (y + snd d)
                \<and> connected h troom r (x + fst d) (y + snd d) x y)"
    if "d \<in> set ds" for d
  proof -
    have o: "diagonal_open h g room x y ?occ cs d" using that by (simp add: ds_def)
    then obtain r troom tv where p: "passable h g room x y ?occ d = Inr (Some (r, troom, tv))"
      and b: "connected h troom r (x + fst d) (y + snd d) x y"
      by (auto simp: diagonal_open_def connected_back_def split: sum.splits option.splits)
    show ?thesis
      using o b passable_SomeD [OF p]
      by (auto simp: diagonal_open_def cardinal_weight_def)
  qed
  show "\<exists>room x y cs ds.
          FromVertex h g v = Inr (room, x, y)
        \<and> cs = filter (cardinal_open h g room x y (occupied g)) directions
        \<and> ds = filter (diagonal_open h g room x y (occupied g) cs) directions
        \<and> adj = map (edge_vertex h g room x y (occupied g)) (cs @ ds)
        \<and> weight = map (\<lambda>_. 1) cs
              @ map (\<lambda>d. (cardinal_weight cs (fst d, 0) + cardinal_weight cs (0, snd d)) / 2) ds
        \<and> (\<forall>d \<in> set ds.
              fst d \<noteq> 0 \<and> snd d \<noteq> 0
            \<and> (fst d, 0) \<in> set cs \<and> (0, snd d) \<in> set cs
            \<and> cardinal_weight cs (fst d, 0) = 1 \<and> cardinal_weight cs (0, snd d) = 1
            \<and> (\<exists>r troom tv tx ty.
                  room = Some r
                \<and> ToVertex h g (x + fst d) (y + snd d) = Inr tv
                \<and> FromVertex h g tv = Inr (Some troom, tx, ty)
                \<and> connected h r troom x y (x + fst d) (y + snd d)
                \<and> connected h troom r (x + fst d) (y + snd d) x y))"
    apply (rule exI [of _ room], rule exI [of _ x], rule exI [of _ y])
    apply (rule exI [of _ cs], rule exI [of _ ds])
    using fv c d each by (simp add: cs_def [symmetric] ds_def [symmetric])
next
  assume "floor0 g = Inr f
        \<and> (\<forall>r \<in> set (Rooms f). 0 \<le> Dx (Size (h r)) \<and> 0 \<le> Dy (Size (h r)))
        \<and> FromVertex h g v = Inr (Some r0, x0, y0)"
  then show "\<exists>adj weight. Adjacent h g v = Inr (adj, weight)"
    using Adjacent_returns by blast
qed

text \<open>
  A room of 3 by 3 cells with an entity on the cell \<open>(0, 1)\<close>, and the vertex 4 of its
  centre \<open>(1, 1)\<close>. The step to the left is blocked by the entity, so the three other
  cardinal steps are edges, and of the diagonal steps only the two to the right.
\<close>

theorem Adjacent_diagonal_edges_witness:
  "Adjacent (\<lambda>_. open_room 0 0 3 3 []) (one_room_game [entity_at (0, 1) 3]) 4
     = Inr ([1, 7, 5, 2, 8], [1, 1, 1, 1, 1])
   \<and> filter (cardinal_open (\<lambda>_. open_room 0 0 3 3 []) (one_room_game [entity_at (0, 1) 3])
               (Some 0) 1 1 (occupied (one_room_game [entity_at (0, 1) 3]))) directions
     = [(0, - 1), (0, 1), (1, 0)]
   \<and> filter (diagonal_open (\<lambda>_. open_room 0 0 3 3 []) (one_room_game [entity_at (0, 1) 3])
               (Some 0) 1 1 (occupied (one_room_game [entity_at (0, 1) 3]))
               [(0, - 1), (0, 1), (1, 0)]) directions
     = [(1, - 1), (1, 1)]
   \<and> map (edge_vertex (\<lambda>_. open_room 0 0 3 3 []) (one_room_game [entity_at (0, 1) 3])
               (Some 0) 1 1 (occupied (one_room_game [entity_at (0, 1) 3])))
          ([(0, - 1), (0, 1), (1, 0)] @ [(1, - 1), (1, 1)])
     = [1, 7, 5, 2, 8]"
proof -
  let ?h = "\<lambda>_ :: room_ref. open_room 0 0 3 3 []"
  let ?g = "one_room_game [entity_at (0, 1) 3]"
  have a: "Adjacent ?h ?g 4 = Inr ([1, 7, 5, 2, 8], [1, 1, 1, 1, 1])"
    by code_simp
  have v: "FromVertex ?h ?g 4 = Inr (Some 0, 1, 1)"
    by code_simp
  have c: "filter (cardinal_open ?h ?g (Some 0) 1 1 (occupied ?g)) directions
      = [(0, - 1), (0, 1), (1, 0)]"
    by code_simp
  have d: "filter (diagonal_open ?h ?g (Some 0) 1 1 (occupied ?g) [(0, - 1), (0, 1), (1, 0)]) directions
      = [(1, - 1), (1, 1)]"
    by code_simp
  obtain room x y cs ds where r: "FromVertex ?h ?g 4 = Inr (room, x, y)"
      "cs = filter (cardinal_open ?h ?g room x y (occupied ?g)) directions"
      "ds = filter (diagonal_open ?h ?g room x y (occupied ?g) cs) directions"
      "[1, 7, 5, 2, 8] = map (edge_vertex ?h ?g room x y (occupied ?g)) (cs @ ds)"
    using Adjacent_diagonal_edges [of ?h ?g 4 "[1, 7, 5, 2, 8]" "[1, 1, 1, 1, 1]", THEN conjunct1,
        THEN mp, OF a]
    by (elim exE conjE) (rule that; assumption)
  have "room = Some 0" "x = 1" "y = 1" using r(1) v by simp_all
  then have "map (edge_vertex ?h ?g (Some 0) 1 1 (occupied ?g)) ([(0, - 1), (0, 1), (1, 0)] @ [(1, - 1), (1, 1)])
      = [1, 7, 5, 2, 8]"
    using r(2,3,4) c d by simp
  then show ?thesis using a c d by blast
qed

subsection \<open>Line of sight\<close>

lemma set_map_store_iff: "c \<in> set (map_store m p) \<longleftrightarrow> c = p \<or> c \<in> set m"
  by (auto simp: set_map_store)

lemma doLos_loop_cells:
  assumes "floor0 g = Inr f"
  shows "c \<in> set (doLos_loop h f ps x y room d m) \<Longrightarrow>
     c \<in> set m \<or> (\<exists>j < length ps. c = ps ! j \<and> int j + 1 < d
        \<and> (\<forall>i \<le> j. \<not> off_floor h g (ps ! i) \<and> \<not> found_furniture_blocks h g (ps ! i)))"
proof (induction ps arbitrary: x y room d m)
  case Nil
  then show ?case by simp
next
  case (Cons p ps)
  show ?case
  proof (cases "c \<in> set m")
    case True
    then show ?thesis by simp
  next
    case False
    obtain rm where rm: "roomAt h f (fst p) (snd p) = Some rm"
      using Cons.prems False by (cases "roomAt h f (fst p) (snd p)") (auto simp: Let_def)
    have nb: "\<not> (case furnitureAt (h rm) (fst p - X (h rm)) (snd p - Y (h rm)) of
                  None \<Rightarrow> False | Some furn \<Rightarrow> Blocks_los furn)"
      using Cons.prems False rm by (auto simp: Let_def split: if_splits)
    have d: "\<not> d - 1 \<le> 0"
      using Cons.prems False rm by (auto simp: Let_def split: if_splits)
    have rec: "c \<in> set (doLos_loop h f ps (fst p) (snd p) (Some rm) (d - 1) (map_store m p))"
      using Cons.prems False rm by (auto simp: Let_def split: if_splits)
    have clear: "\<not> off_floor h g p \<and> \<not> found_furniture_blocks h g p"
      using rm nb assms by (simp add: off_floor_def found_furniture_blocks_def)
    from Cons.IH [OF rec] show ?thesis
    proof
      assume "c \<in> set (map_store m p)"
      then have "c = p" using False by (simp add: set_map_store_iff)
      then have "0 < length (p # ps) \<and> c = (p # ps) ! 0 \<and> int 0 + 1 < d
          \<and> (\<forall>i \<le> 0. \<not> off_floor h g ((p # ps) ! i) \<and> \<not> found_furniture_blocks h g ((p # ps) ! i))"
        using d clear by simp
      then show ?thesis by blast
    next
      assume "\<exists>j < length ps. c = ps ! j \<and> int j + 1 < d - 1
        \<and> (\<forall>i \<le> j. \<not> off_floor h g (ps ! i) \<and> \<not> found_furniture_blocks h g (ps ! i))"
      then obtain j where j: "j < length ps" "c = ps ! j" "int j + 1 < d - 1"
        "\<forall>i \<le> j. \<not> off_floor h g (ps ! i) \<and> \<not> found_furniture_blocks h g (ps ! i)"
        by blast
      have "\<forall>i \<le> Suc j. \<not> off_floor h g ((p # ps) ! i) \<and> \<not> found_furniture_blocks h g ((p # ps) ! i)"
        using j(4) clear by (auto simp: nth_Cons split: nat.splits)
      then have "Suc j < length (p # ps) \<and> c = (p # ps) ! Suc j \<and> int (Suc j) + 1 < d
          \<and> (\<forall>i \<le> Suc j. \<not> off_floor h g ((p # ps) ! i) \<and> \<not> found_furniture_blocks h g ((p # ps) ! i))"
        using j(1,2,3) by simp
      then show ?thesis by blast
    qed
  qed
qed

lemma doLos_cells:
  assumes "doLos h g d line m = Inr m'" "c \<in> set m'"
  shows "c \<in> set m \<or> (\<exists>k. c = line ! k \<and> reaches h g d line k)"
proof -
  obtain p0 rest where line: "line = p0 # rest"
    using assms(1) by (cases line) (auto simp: doLos_def)
  obtain f where f: "floor0 g = Inr f"
    using assms(1) line by (cases "floor0 g") (auto simp: doLos_def Let_def)
  have m': "m' = doLos_loop h f rest (fst p0) (snd p0) (roomAt h f (fst p0) (snd p0)) d (map_store m p0)"
    using assms(1) line f by (simp add: doLos_def Let_def)
  from doLos_loop_cells [OF f, of c h rest _ _ _ d "map_store m p0"] assms(2)
  consider "c \<in> set (map_store m p0)"
    | j where "j < length rest" "c = rest ! j" "int j + 1 < d"
        "\<forall>i \<le> j. \<not> off_floor h g (rest ! i) \<and> \<not> found_furniture_blocks h g (rest ! i)"
    unfolding m' by blast
  then show ?thesis
  proof cases
    case 1
    then have "c \<in> set m \<or> c = line ! 0" by (auto simp: set_map_store_iff line)
    moreover have "reaches h g d line 0" by (simp add: reaches_def line)
    ultimately show ?thesis by blast
  next
    case 2
    have "list_all (\<lambda>i. \<not> off_floor h g (line ! i) \<and> \<not> found_furniture_blocks h g (line ! i)) [1..<Suc (Suc j)]"
      unfolding list_all_iff
    proof
      fix i assume "i \<in> set [1..<Suc (Suc j)]"
      then have "1 \<le> i \<and> i \<le> Suc j" unfolding set_upt by auto
      then obtain i' where "i = Suc i'" "i' \<le> j" by (cases i) auto
      then show "\<not> off_floor h g (line ! i) \<and> \<not> found_furniture_blocks h g (line ! i)"
        using 2(4) line by simp
    qed
    then have "reaches h g d line (Suc j)"
      using 2(1,3) by (simp add: reaches_def line)
    moreover have "c = line ! Suc j" using 2(2) line by simp
    ultimately show ?thesis by blast
  qed
qed

lemma doLos_returns:
  assumes "floor0 g = Inr f" "line \<noteq> []"
  shows "\<exists>m'. doLos h g d line m = Inr m'"
  using assms by (cases line) (auto simp: doLos_def Let_def)

lemma bresenham_nonempty: "bresenham x y x2 y2 = Some line \<Longrightarrow> line \<noteq> []"
  by (auto simp: bresenham_closed simp del: upt_Suc)

lemma cast_ray_not_None: "cast_ray h g s ex ey t m \<noteq> None"
  by (simp add: cast_ray_def bresenham_closed)

lemma cast_ray_returns:
  assumes "floor0 g = Inr f"
  shows "\<exists>m'. cast_ray h g s ex ey t m = Some (Inr m')"
proof -
  obtain line where l: "bresenham ex ey (fst t) (snd t) = Some line"
    by (simp add: bresenham_closed)
  then show ?thesis
    using doLos_returns [OF assms bresenham_nonempty [OF l]] by (simp add: cast_ray_def)
qed

lemma cast_ray_cells:
  assumes "cast_ray h g s ex ey t m = Some (Inr m')" "c \<in> set m'"
  shows "c \<in> set m \<or> (\<exists>line k. bresenham ex ey (fst t) (snd t) = Some line
            \<and> c = line ! k \<and> reaches h g s line k)"
proof -
  obtain line where l: "bresenham ex ey (fst t) (snd t) = Some line"
    by (simp add: bresenham_closed)
  then have "doLos h g s line m = Inr m'" using assms(1) by (simp add: cast_ray_def)
  from doLos_cells [OF this assms(2)] l show ?thesis by blast
qed

lemma fold_run_cells:
  assumes "\<And>x s s'. x \<in> set xs \<Longrightarrow> f x s = Some (Inr s') \<Longrightarrow> c \<in> set s' \<Longrightarrow> c \<in> set s \<or> Q x"
    and "fold_run f xs s = Some (Inr s')" "c \<in> set s'"
  shows "c \<in> set s \<or> (\<exists>x \<in> set xs. Q x)"
  using assms
proof (induction xs arbitrary: s)
  case Nil
  then show ?case by simp
next
  case (Cons x xs)
  obtain s1 where s1: "f x s = Some (Inr s1)" "fold_run f xs s1 = Some (Inr s')"
    using Cons.prems(2) by (auto split: option.splits sum.splits)
  have "c \<in> set s1 \<or> (\<exists>x \<in> set xs. Q x)"
    using Cons.prems(1,3) s1(2) by (intro Cons.IH) auto
  then show ?case using Cons.prems(1) [OF _ s1(1)] by auto
qed

lemma fold_run_not_None:
  assumes "\<And>x s. f x s \<noteq> None"
  shows "fold_run f xs s \<noteq> None"
proof (induction xs arbitrary: s)
  case Nil
  then show ?case by simp
next
  case (Cons x xs)
  then show ?case using assms [of x s] by (auto split: option.splits sum.splits)
qed

lemma fold_run_returns:
  assumes "\<And>x s. \<exists>s'. f x s = Some (Inr s')"
  shows "\<exists>s'. fold_run f xs s = Some (Inr s')"
proof (induction xs arbitrary: s)
  case Nil
  then show ?case by simp
next
  case (Cons x xs)
  obtain s1 where "f x s = Some (Inr s1)" using assms by blast
  then show ?case using Cons.IH [of s1] by simp
qed

lemma bresenham_nth_cheb:
  assumes "bresenham x y x2 y2 = Some line" "k < length line"
  shows "cheb (x, y) (line ! k) = int k"
proof -
  have l: "line = map (ray_cell x y x2 y2) [0..<Suc (ray_len x y x2 y2)]"
    using assms(1) by (simp add: bresenham_closed)
  have "k < Suc (ray_len x y x2 y2)" using assms(2) unfolding l by simp
  then have "line ! k = ray_cell x y x2 y2 k"
    unfolding l by (simp add: nth_append del: upt_Suc)
  then show ?thesis by (simp add: ray_cell_cheb)
qed

lemma set_shift_fold:
  "set (fold (\<lambda>p elos. map_store elos (fst p + 1, snd p + 1)) ps m) = shifted ` set ps \<union> set m"
  by (induction ps arbitrary: m) (auto simp: set_map_store shifted_def)

lemma pair_of_rays_cells:
  assumes "fold_run (cast_ray h g s ex ey) [t1, t2] m = Some (Inr m')" "c \<in> set m'"
  shows "c \<in> set m \<or> ray_reaches h g s (ex, ey) t1 c \<or> ray_reaches h g s (ex, ey) t2 c"
proof -
  have "c \<in> set m \<or> (\<exists>t \<in> set [t1, t2]. ray_reaches h g s (ex, ey) t c)"
  proof (rule fold_run_cells [OF _ assms])
    fix t m1 m2
    assume "cast_ray h g s ex ey t m1 = Some (Inr m2)" "c \<in> set m2"
    from cast_ray_cells [OF this]
    show "c \<in> set m1 \<or> ray_reaches h g s (ex, ey) t c"
      by (auto simp: ray_reaches_def)
  qed
  then show ?thesis by auto
qed

lemma sweep_cells:
  assumes "fold_run (\<lambda>a m. fold_run (cast_ray h g s ex ey) [t1 a, t2 a] m) as m = Some (Inr m')"
    and "c \<in> set m'"
  shows "c \<in> set m \<or> (\<exists>a \<in> set as. ray_reaches h g s (ex, ey) (t1 a) c
                                   \<or> ray_reaches h g s (ex, ey) (t2 a) c)"
proof (rule fold_run_cells [OF _ assms])
  fix a m1 m2
  assume "fold_run (cast_ray h g s ex ey) [t1 a, t2 a] m1 = Some (Inr m2)" "c \<in> set m2"
  from pair_of_rays_cells [OF this]
  show "c \<in> set m1 \<or> ray_reaches h g s (ex, ey) (t1 a) c \<or> ray_reaches h g s (ex, ey) (t2 a) c" .
qed

lemma sweep_not_None:
  "fold_run (\<lambda>a m. fold_run (cast_ray h g s ex ey) [t1 a, t2 a] m) as m \<noteq> None"
  by (intro fold_run_not_None cast_ray_not_None)

lemma sweep_returns:
  assumes "floor0 g = Inr f"
  shows "\<exists>m'. fold_run (\<lambda>a m. fold_run (cast_ray h g s ex ey) [t1 a, t2 a] m) as m = Some (Inr m')"
  by (intro fold_run_returns cast_ray_returns [OF assms])

text \<open>
  \<^verbatim>\<open>DetermineLos\<close> when it recomputes: the two sweeps over the perimeter, and the
  shift of what they marked.
\<close>

lemma DetermineLos_recompute:
  assumes "force \<or> EntPos ent \<noteq> (losx ent, losy ent)"
  shows "DetermineLos h g ent force =
     (case fold_run (\<lambda>x m. fold_run (cast_ray h g (Sight ent) (fst (EntPos ent)) (snd (EntPos ent)))
                       [(x, snd (EntPos ent) - Sight ent), (x, snd (EntPos ent) + Sight ent)] m)
             [fst (EntPos ent) - Sight ent .. fst (EntPos ent) + Sight ent] [] of
        None \<Rightarrow> None
      | Some (Inl e) \<Rightarrow> Some (Inl e)
      | Some (Inr los1) \<Rightarrow>
          (case fold_run (\<lambda>y m. fold_run (cast_ray h g (Sight ent) (fst (EntPos ent)) (snd (EntPos ent)))
                           [(fst (EntPos ent) - Sight ent, y), (fst (EntPos ent) + Sight ent, y)] m)
                  [snd (EntPos ent) - Sight ent .. snd (EntPos ent) + Sight ent] los1 of
             None \<Rightarrow> None
           | Some (Inl e) \<Rightarrow> Some (Inl e)
           | Some (Inr los2) \<Rightarrow>
               Some (Inr (ent\<lparr>losx := fst (EntPos ent), losy := snd (EntPos ent),
                               los := fold (\<lambda>p elos. map_store elos (fst p + 1, snd p + 1)) los2 []\<rparr>))))"
proof (cases "EntPos ent")
  case (Pair ex ey)
  then have c: "(\<not> force \<and> ex = losx ent \<and> ey = losy ent) = False"
    using assms by auto
  show ?thesis
    unfolding DetermineLos_def Pair Let_def prod.case c if_False
    by (simp del: fold_run.simps cong: option.case_cong sum.case_cong)
qed

lemma perimeter_cheb:
  assumes "a \<in> set [c - s..c + s]"
  shows "cheb (ex, ey) (ex + (a - c), ey - s) = s" "cheb (ex, ey) (ex + (a - c), ey + s) = s"
    "cheb (ex, ey) (ex - s, ey + (a - c)) = s" "cheb (ex, ey) (ex + s, ey + (a - c)) = s"
  using assms by (auto simp: cheb_def max_def)

lemma sweeps_marks:
  assumes "fold_run (\<lambda>x m. fold_run (cast_ray h g s ex ey) [(x, ey - s), (x, ey + s)] m)
             [ex - s..ex + s] [] = Some (Inr los1)"
    and "fold_run (\<lambda>y m. fold_run (cast_ray h g s ex ey) [(ex - s, y), (ex + s, y)] m)
             [ey - s..ey + s] los1 = Some (Inr los2)"
    and "c \<in> set los2"
  shows "\<exists>t. cheb (ex, ey) t = s \<and> ray_reaches h g s (ex, ey) t c"
proof -
  from sweep_cells [OF assms(2,3)]
  consider "c \<in> set los1"
    | y where "y \<in> set [ey - s..ey + s]"
        "ray_reaches h g s (ex, ey) (ex - s, y) c \<or> ray_reaches h g s (ex, ey) (ex + s, y) c"
    by blast
  then show ?thesis
  proof cases
    case 1
    from sweep_cells [OF assms(1) 1]
    obtain x where x: "x \<in> set [ex - s..ex + s]"
        "ray_reaches h g s (ex, ey) (x, ey - s) c \<or> ray_reaches h g s (ex, ey) (x, ey + s) c"
      by auto
    have "cheb (ex, ey) (x, ey - s) = s" "cheb (ex, ey) (x, ey + s) = s"
      using perimeter_cheb(1,2) [OF x(1), of ex ey] by simp_all
    then show ?thesis using x(2) by blast
  next
    case 2
    have "cheb (ex, ey) (ex - s, y) = s" "cheb (ex, ey) (ex + s, y) = s"
      using perimeter_cheb(3,4) [OF 2(1), of ex ey] by simp_all
    then show ?thesis using 2(2) by blast
  qed
qed

lemma cheb_shifted: "cheb e (shifted c) \<le> cheb e c + 1"
  by (auto simp: cheb_def shifted_def max_def)

lemma find_filter_single:
  assumes "length (filter P xs) \<le> 1"
  shows "list_ex Q (filter P xs) = (case find P xs of None \<Rightarrow> False | Some x \<Rightarrow> Q x)"
  using assms
proof (induction xs)
  case Nil
  then show ?case by simp
next
  case (Cons x xs)
  show ?case
  proof (cases "P x")
    case True
    then have "filter P xs = []" using Cons.prems by simp
    then show ?thesis using True by simp
  next
    case False
    then show ?thesis using Cons by simp
  qed
qed

text \<open>
  On a cell that one room at most and one piece of furniture at most cover, the piece
  that \<^verbatim>\<open>furnitureAt\<close> finds blocks sight exactly when the cell holds sight-blocking
  furniture.
\<close>

lemma found_furniture_blocks_eq:
  assumes "one_piece_per_cell h g p"
  shows "found_furniture_blocks h g p = holds_blocking_furniture h g p"
proof (cases "floor0 g")
  case (Inl e)
  then show ?thesis
    by (simp add: found_furniture_blocks_def holds_blocking_furniture_def rooms_on_def)
next
  case (Inr f)
  have ro: "rooms_on h g p = filter (\<lambda>room. in_room (h room) p) (Rooms f)"
    using Inr by (simp add: rooms_on_def)
  have ra: "roomAt h f (fst p) (snd p) = find (\<lambda>room. in_room (h room) p) (Rooms f)"
    by (simp add: roomAt_def in_room_def)
  have one: "length (filter (\<lambda>room. in_room (h room) p) (Rooms f)) \<le> 1"
    using assms ro by (simp add: one_piece_per_cell_def)
  have hb: "holds_blocking_furniture h g p =
      (case roomAt h f (fst p) (snd p) of None \<Rightarrow> False
       | Some rm \<Rightarrow> list_ex Blocks_los (pieces_on (h rm) p))"
    unfolding holds_blocking_furniture_def ro ra
    by (rule find_filter_single [OF one])
  show ?thesis
  proof (cases "roomAt h f (fst p) (snd p)")
    case None
    then show ?thesis using hb Inr by (simp add: found_furniture_blocks_def)
  next
    case (Some rm)
    then have "rm \<in> set (rooms_on h g p)"
      unfolding ro ra by (auto simp: find_Some_iff in_set_conv_nth)
    then have o2: "length (pieces_on (h rm) p) \<le> 1"
      using assms by (simp add: one_piece_per_cell_def list_all_iff)
    have fa: "furnitureAt (h rm) (fst p - X (h rm)) (snd p - Y (h rm))
        = find (\<lambda>furn. furniture_on furn (fst p - X (h rm)) (snd p - Y (h rm))) (Furniture (h rm))"
      by (simp add: furnitureAt_def furniture_on_def)
    have "list_ex Blocks_los (pieces_on (h rm) p) =
        (case furnitureAt (h rm) (fst p - X (h rm)) (snd p - Y (h rm)) of
           None \<Rightarrow> False | Some furn \<Rightarrow> Blocks_los furn)"
      unfolding fa pieces_on_def
      by (rule find_filter_single [OF o2 [unfolded pieces_on_def]])
    then show ?thesis using hb Inr Some by (simp add: found_furniture_blocks_def)
  qed
qed

lemma reaches_clear:
  assumes "reaches h g s line k" "1 \<le> i" "i \<le> k"
  shows "\<not> off_floor h g (line ! i)" "\<not> found_furniture_blocks h g (line ! i)"
    "one_piece_per_cell h g (line ! i) \<Longrightarrow> \<not> holds_blocking_furniture h g (line ! i)"
proof -
  have "i \<in> set [1..<Suc k]" using assms(2,3) by auto
  then show a: "\<not> off_floor h g (line ! i)" and b: "\<not> found_furniture_blocks h g (line ! i)"
    using assms(1) unfolding reaches_def list_all_iff by blast+
  show "\<not> holds_blocking_furniture h g (line ! i)" if "one_piece_per_cell h g (line ! i)"
    using b found_furniture_blocks_eq [OF that] by simp
qed

lemma cheb_nonneg: "0 \<le> cheb p q"
  by (simp add: cheb_def)

text \<open>
  Claim C3, as amended. When \<^verbatim>\<open>DetermineLos\<close> recomputes (\<open>force\<close>, or the entity has
  moved), it returns, without a panic if the house has a floor, and every cell \<open>q\<close> of
  the new \<open>los\<close> set is the shift by \<open>(+1, +1)\<close> of a cell that one of the cast rays
  reaches: there are a cell \<open>t\<close> on the perimeter of the square of radius \<open>Sight\<close> around
  the entity and an index \<open>k\<close> such that \<open>q\<close> is the shifted cell \<open>k\<close> of the line
  \<^verbatim>\<open>bresenham\<close> draws from the entity to \<open>t\<close>, and

  \<^item> each of the cells 1 to \<open>k\<close> of that line lies in a room of the floor, and the first
    piece of furniture of that room that covers it (the one \<^verbatim>\<open>furnitureAt\<close> returns),
    if there is one, does not block sight; where one room at most and one piece of
    furniture at most cover such a cell, the cell holds no sight-blocking furniture;

  \<^item> \<open>k\<close> is 0, the entity's own cell, or less than \<open>Sight\<close>; the cell \<open>k\<close> of the line is
    \<open>k\<close> cells from the entity in the square that the rays span, so \<open>q\<close> shifted back
    by \<open>(1, 1)\<close> is at most \<open>Sight\<close> cells from the entity, and less than \<open>Sight\<close> when
    \<open>Sight\<close> is 1 or more; the recorded cell \<open>q\<close> itself is at most \<open>Sight\<close> cells from
    the entity when \<open>Sight\<close> is 1 or more, and 1 cell when \<open>Sight\<close> is 0.

  So a ray never marks a cell at or beyond a tile on its own line whose first piece of
  furniture blocks sight. A cell beyond a sight-blocking tile of one ray can still be
  in the set, marked by another ray, and a sight-blocking piece that follows another
  piece on the same cell in the room's list stops no ray.
\<close>

theorem DetermineLos_cells:
  assumes "force \<or> EntPos ent \<noteq> (losx ent, losy ent)"
  shows "\<exists>res. DetermineLos h g ent force = Some res
     \<and> (\<forall>f. floor0 g = Inr f \<longrightarrow> (\<exists>ent'. res = Inr ent'))
     \<and> (\<forall>ent'. res = Inr ent' \<longrightarrow>
          (\<forall>q \<in> set (los ent').
             \<exists>t line k. cheb (EntPos ent) t = Sight ent
                \<and> bresenham (fst (EntPos ent)) (snd (EntPos ent)) (fst t) (snd t) = Some line
                \<and> reaches h g (Sight ent) line k
                \<and> q = shifted (line ! k)
                \<and> (\<forall>i. 1 \<le> i \<and> i \<le> k \<longrightarrow>
                      \<not> off_floor h g (line ! i)
                      \<and> \<not> found_furniture_blocks h g (line ! i)
                      \<and> (one_piece_per_cell h g (line ! i)
                           \<longrightarrow> \<not> holds_blocking_furniture h g (line ! i)))
                \<and> cheb (EntPos ent) (line ! k) = int k
                \<and> int k < max 1 (Sight ent)
                \<and> int k \<le> Sight ent
                \<and> cheb (EntPos ent) (fst q - 1, snd q - 1) < max 1 (Sight ent)
                \<and> cheb (EntPos ent) (fst q - 1, snd q - 1) \<le> Sight ent
                \<and> cheb (EntPos ent) q \<le> max 1 (Sight ent)
                \<and> (1 \<le> Sight ent \<longrightarrow> cheb (EntPos ent) q \<le> Sight ent)))"
proof -
  obtain ex ey where e: "EntPos ent = (ex, ey)" by (cases "EntPos ent")
  define s where "s = Sight ent"
  let ?sweep1 = "fold_run (\<lambda>x m. fold_run (cast_ray h g s ex ey) [(x, ey - s), (x, ey + s)] m)
             [ex - s..ex + s] []"
  let ?sweep2 = "\<lambda>los1. fold_run (\<lambda>y m. fold_run (cast_ray h g s ex ey) [(ex - s, y), (ex + s, y)] m)
             [ey - s..ey + s] los1"
  let ?good = "\<lambda>q t line k. cheb (EntPos ent) t = Sight ent
                \<and> bresenham (fst (EntPos ent)) (snd (EntPos ent)) (fst t) (snd t) = Some line
                \<and> reaches h g (Sight ent) line k
                \<and> q = shifted (line ! k)
                \<and> (\<forall>i. 1 \<le> i \<and> i \<le> k \<longrightarrow>
                      \<not> off_floor h g (line ! i)
                      \<and> \<not> found_furniture_blocks h g (line ! i)
                      \<and> (one_piece_per_cell h g (line ! i)
                           \<longrightarrow> \<not> holds_blocking_furniture h g (line ! i)))
                \<and> cheb (EntPos ent) (line ! k) = int k
                \<and> int k < max 1 (Sight ent)
                \<and> int k \<le> Sight ent
                \<and> cheb (EntPos ent) (fst q - 1, snd q - 1) < max 1 (Sight ent)
                \<and> cheb (EntPos ent) (fst q - 1, snd q - 1) \<le> Sight ent
                \<and> cheb (EntPos ent) q \<le> max 1 (Sight ent)
                \<and> (1 \<le> Sight ent \<longrightarrow> cheb (EntPos ent) q \<le> Sight ent)"
  have D: "DetermineLos h g ent force =
     (case ?sweep1 of
        None \<Rightarrow> None
      | Some (Inl e) \<Rightarrow> Some (Inl e)
      | Some (Inr los1) \<Rightarrow>
          (case ?sweep2 los1 of
             None \<Rightarrow> None
           | Some (Inl e) \<Rightarrow> Some (Inl e)
           | Some (Inr los2) \<Rightarrow>
               Some (Inr (ent\<lparr>losx := ex, losy := ey,
                               los := fold (\<lambda>p elos. map_store elos (fst p + 1, snd p + 1)) los2 []\<rparr>))))"
    using DetermineLos_recompute [OF assms, of h g]
    unfolding e fst_conv snd_conv s_def [symmetric] .
  have ret: "\<exists>m'. ?sweep1 = Some (Inr m')" "\<exists>m'. ?sweep2 m = Some (Inr m')" if "floor0 g = Inr f" for f m
    using sweep_returns [OF that, where ?t1.0 = "\<lambda>x. (x, ey - s)" and ?t2.0 = "\<lambda>x. (x, ey + s)"]
      sweep_returns [OF that, where ?t1.0 = "\<lambda>y. (ex - s, y)" and ?t2.0 = "\<lambda>y. (ex + s, y)"]
    by blast+
  obtain r1 where r1: "?sweep1 = Some r1"
    using sweep_not_None [where ?t1.0 = "\<lambda>x. (x, ey - s)" and ?t2.0 = "\<lambda>x. (x, ey + s)"] by blast
  show ?thesis
  proof (cases r1)
    case (Inl err)
    then have "DetermineLos h g ent force = Some (Inl err)" using D r1 by (simp del: fold_run.simps)
    moreover have "floor0 g \<noteq> Inr f" for f using ret(1) [of f] r1 Inl by (auto simp del: fold_run.simps)
    ultimately show ?thesis by auto
  next
    case (Inr los1)
    obtain r2 where r2: "?sweep2 los1 = Some r2"
      using sweep_not_None [where ?t1.0 = "\<lambda>y. (ex - s, y)" and ?t2.0 = "\<lambda>y. (ex + s, y)"] by blast
    show ?thesis
    proof (cases r2)
      case (Inl err)
      then have "DetermineLos h g ent force = Some (Inl err)" using D r1 r2 \<open>r1 = Inr los1\<close> by (simp del: fold_run.simps)
      moreover have "floor0 g \<noteq> Inr f" for f using ret(2) [of f los1] r2 Inl by (auto simp del: fold_run.simps)
      ultimately show ?thesis by auto
    next
      case (Inr los2)
      let ?ent' = "ent\<lparr>losx := ex, losy := ey,
                       los := fold (\<lambda>p elos. map_store elos (fst p + 1, snd p + 1)) los2 []\<rparr>"
      have res: "DetermineLos h g ent force = Some (Inr ?ent')"
        using D r1 r2 \<open>r1 = Inr los1\<close> Inr by (simp del: fold_run.simps)
      have cells: "\<exists>t line k. ?good q t line k"
        if q: "q \<in> set (los ?ent')" for q
      proof -
        have "q \<in> shifted ` set los2" using q by (simp add: set_shift_fold)
        then obtain c where c: "c \<in> set los2" "q = shifted c"
          by blast
        obtain t where t: "cheb (ex, ey) t = s" "ray_reaches h g s (ex, ey) t c"
          using sweeps_marks [OF _ _ c(1)] r1 r2 \<open>r1 = Inr los1\<close> Inr by blast
        obtain line k where l: "bresenham ex ey (fst t) (snd t) = Some line" "c = line ! k"
            "reaches h g s line k"
          using t(2) by (auto simp: ray_reaches_def)
        have k: "k < length line" "int k < max 1 s" using l(3) by (simp_all add: reaches_def)
        have s0: "0 \<le> s" using t(1) cheb_nonneg [of "(ex, ey)" t] by simp
        have ks: "int k \<le> s" using k(2) s0 by simp
        have d: "cheb (ex, ey) (line ! k) = int k"
          using bresenham_nth_cheb [OF l(1) k(1)] .
        have unsh: "(fst q - 1, snd q - 1) = c" using c(2) by (simp add: shifted_def)
        have q1: "cheb (ex, ey) q \<le> int k + 1"
          using cheb_shifted [of "(ex, ey)" c] d l(2) c(2) by simp
        then have far: "cheb (ex, ey) q \<le> max 1 s" using k(2) by simp
        have far1: "cheb (ex, ey) q \<le> s" if "1 \<le> s" using q1 k(2) that by simp
        have clear: "\<not> off_floor h g (line ! i) \<and> \<not> found_furniture_blocks h g (line ! i)
            \<and> (one_piece_per_cell h g (line ! i) \<longrightarrow> \<not> holds_blocking_furniture h g (line ! i))"
          if "1 \<le> i \<and> i \<le> k" for i
          using reaches_clear [OF l(3), of i] that by blast
        have "?good q t line k"
          unfolding e fst_conv snd_conv s_def [symmetric] unsh
          using t(1) l k ks d c(2) far far1 clear by (simp only: simp_thms) blast
        then show ?thesis by blast
      qed
      show ?thesis
        using res cells by auto
    qed
  qed
qed

text \<open>
  A room of 4 by 4 cells and an entity on \<open>(0, 0)\<close>, in three settings.

  With a pillar on \<open>(1, 0)\<close> and sight 3: the ray to \<open>(3, 1)\<close> runs over the pillar and
  then over \<open>(2, 1)\<close>, and stops at the pillar. The ray to \<open>(3, 2)\<close> runs over \<open>(1, 1)\<close>
  and \<open>(2, 1)\<close> and marks both, so the set holds \<open>(3, 2)\<close>, the shift of \<open>(2, 1)\<close>: a cell
  beyond a sight-blocking tile along the first ray.

  With a rug and then a pillar on \<open>(1, 0)\<close> and sight 3: \<^verbatim>\<open>furnitureAt\<close> finds the rug, so
  the ray to \<open>(3, 0)\<close> passes the cell, which holds the pillar, and the set holds
  \<open>(2, 1)\<close> and \<open>(3, 1)\<close>, the shifts of the pillar's cell and of \<open>(2, 0)\<close> behind it on
  the same ray.

  With no furniture and sight 0: the set is \<open>(1, 1)\<close>, the shift of the entity's own
  cell, 1 cell from the entity.
\<close>

theorem DetermineLos_cells_counterexample:
  "DetermineLos (\<lambda>_. open_room 0 0 4 4 [pillar (1, 0)]) (one_room_game []) (entity_at (0, 0) 3) True
     = Some (Inr ((entity_at (0, 0) 3)\<lparr>los := [(1, 1), (1, 2), (1, 3), (2, 3), (2, 2), (3, 3), (3, 2)]\<rparr>))
   \<and> bresenham 0 0 3 1 = Some [(0, 0), (1, 0), (2, 1), (3, 1)]
   \<and> holds_blocking_furniture (\<lambda>_. open_room 0 0 4 4 [pillar (1, 0)]) (one_room_game []) (1, 0)
   \<and> shifted (2, 1) = (3, 2)
   \<and> \<not> nothing_seen_past_blocks (\<lambda>_. open_room 0 0 4 4 [pillar (1, 0)]) (one_room_game [])
          (entity_at (0, 0) 3) [(1, 1), (1, 2), (1, 3), (2, 3), (2, 2), (3, 3), (3, 2)]
   \<and> DetermineLos (\<lambda>_. open_room 0 0 4 4 [rug (1, 0), pillar (1, 0)]) (one_room_game [])
          (entity_at (0, 0) 3) True
     = Some (Inr ((entity_at (0, 0) 3)
          \<lparr>los := [(1, 1), (1, 2), (1, 3), (2, 3), (2, 2), (3, 3), (2, 1), (3, 1), (3, 2)]\<rparr>))
   \<and> bresenham 0 0 3 0 = Some [(0, 0), (1, 0), (2, 0), (3, 0)]
   \<and> holds_blocking_furniture (\<lambda>_. open_room 0 0 4 4 [rug (1, 0), pillar (1, 0)]) (one_room_game []) (1, 0)
   \<and> \<not> found_furniture_blocks (\<lambda>_. open_room 0 0 4 4 [rug (1, 0), pillar (1, 0)]) (one_room_game []) (1, 0)
   \<and> shifted (1, 0) = (2, 1) \<and> shifted (2, 0) = (3, 1)
   \<and> \<not> nothing_seen_past_blocks (\<lambda>_. open_room 0 0 4 4 [rug (1, 0), pillar (1, 0)]) (one_room_game [])
          (entity_at (0, 0) 3) [(1, 1), (1, 2), (1, 3), (2, 3), (2, 2), (3, 3), (2, 1), (3, 1), (3, 2)]
   \<and> DetermineLos (\<lambda>_. open_room 0 0 4 4 []) (one_room_game []) (entity_at (0, 0) 0) True
     = Some (Inr ((entity_at (0, 0) 0)\<lparr>los := [(1, 1)]\<rparr>))
   \<and> cheb (0, 0) (1, 1) = 1
   \<and> \<not> nothing_seen_past_sight (entity_at (0, 0) 0) [(1, 1)]"
proof -
  let ?h = "\<lambda>_ :: room_ref. open_room 0 0 4 4 [pillar (1, 0)]"
  let ?h2 = "\<lambda>_ :: room_ref. open_room 0 0 4 4 [rug (1, 0), pillar (1, 0)]"
  let ?h3 = "\<lambda>_ :: room_ref. open_room 0 0 4 4 []"
  let ?g = "one_room_game []"
  let ?vis = "[(1, 1), (1, 2), (1, 3), (2, 3), (2, 2), (3, 3), (3 :: int, 2 :: int)]"
  let ?vis2 = "[(1, 1), (1, 2), (1, 3), (2, 3), (2, 2), (3, 3), (2, 1), (3, 1), (3 :: int, 2 :: int)]"
  have d: "DetermineLos ?h ?g (entity_at (0, 0) 3) True
     = Some (Inr ((entity_at (0, 0) 3)\<lparr>los := ?vis\<rparr>))"
    by code_simp
  have b: "bresenham 0 0 3 1 = Some [(0, 0), (1, 0), (2, 1), (3, 1)]"
    by code_simp
  have p: "holds_blocking_furniture ?h ?g (1, 0)"
    by code_simp
  have s: "shifted (2, 1) = (3, 2)" "shifted (1, 0) = (2, 1)" "shifted (2, 0) = (3, 1)"
    by (simp_all add: shifted_def)
  have "cheb (EntPos (entity_at (0, 0) 3)) (3, 1) = Sight (entity_at (0, 0) 3)
        \<and> bresenham (fst (EntPos (entity_at (0, 0) 3))) (snd (EntPos (entity_at (0, 0) 3)))
             (fst (3, 1)) (snd (3, 1)) = Some [(0, 0), (1, 0), (2, 1), (3, 1)]
        \<and> (1 :: nat) < 2 \<and> 2 < length [(0, 0), (1, 0), (2, 1), (3 :: int, 1 :: int)]
        \<and> holds_blocking_furniture ?h ?g ([(0, 0), (1, 0), (2, 1), (3, 1)] ! 1)
        \<and> shifted ([(0, 0), (1, 0), (2, 1), (3, 1)] ! 2) \<in> set ?vis"
    using b p s by (simp add: entity_at_def cheb_def)
  then have n: "\<not> nothing_seen_past_blocks ?h ?g (entity_at (0, 0) 3) ?vis"
    unfolding nothing_seen_past_blocks_def by blast
  have d2: "DetermineLos ?h2 ?g (entity_at (0, 0) 3) True
     = Some (Inr ((entity_at (0, 0) 3)\<lparr>los := ?vis2\<rparr>))"
    by code_simp
  have b2: "bresenham 0 0 3 0 = Some [(0, 0), (1, 0), (2, 0), (3, 0)]"
    by code_simp
  have p2: "holds_blocking_furniture ?h2 ?g (1, 0)" "\<not> found_furniture_blocks ?h2 ?g (1, 0)"
    by code_simp+
  have "cheb (EntPos (entity_at (0, 0) 3)) (3, 0) = Sight (entity_at (0, 0) 3)
        \<and> bresenham (fst (EntPos (entity_at (0, 0) 3))) (snd (EntPos (entity_at (0, 0) 3)))
             (fst (3, 0)) (snd (3, 0)) = Some [(0, 0), (1, 0), (2, 0), (3, 0)]
        \<and> (1 :: nat) < 2 \<and> 2 < length [(0, 0), (1, 0), (2, 0), (3 :: int, 0 :: int)]
        \<and> holds_blocking_furniture ?h2 ?g ([(0, 0), (1, 0), (2, 0), (3, 0)] ! 1)
        \<and> shifted ([(0, 0), (1, 0), (2, 0), (3, 0)] ! 2) \<in> set ?vis2"
    using b2 p2 s by (simp add: entity_at_def cheb_def)
  then have n2: "\<not> nothing_seen_past_blocks ?h2 ?g (entity_at (0, 0) 3) ?vis2"
    unfolding nothing_seen_past_blocks_def by blast
  have d3: "DetermineLos ?h3 ?g (entity_at (0, 0) 0) True
     = Some (Inr ((entity_at (0, 0) 0)\<lparr>los := [(1, 1)]\<rparr>))"
    by code_simp
  have c3: "cheb (0, 0) (1, 1) = 1"
    by (simp add: cheb_def)
  have n3: "\<not> nothing_seen_past_sight (entity_at (0, 0) 0) [(1, 1)]"
    by (simp add: nothing_seen_past_sight_def entity_at_def cheb_def)
  show ?thesis
    using d b p s n d2 b2 p2 n2 d3 c3 n3 by (simp only: simp_thms)
qed

text \<open>
  The amended statement in the room with the pillar, where no two pieces of furniture
  share a cell: the cell \<open>(3, 2)\<close> of the set is the shift of a cell that a ray reaches
  over cells that hold no sight-blocking furniture, at most 2 cells from the entity,
  and \<open>(3, 2)\<close> itself is at most 3 cells from it.
\<close>

theorem DetermineLos_cells_witness:
  "DetermineLos (\<lambda>_. open_room 0 0 4 4 [pillar (1, 0)]) (one_room_game []) (entity_at (0, 0) 3) True
     = Some (Inr ((entity_at (0, 0) 3)\<lparr>los := [(1, 1), (1, 2), (1, 3), (2, 3), (2, 2), (3, 3), (3, 2)]\<rparr>))
   \<and> (\<exists>t line k. cheb (0, 0) t = 3
          \<and> bresenham 0 0 (fst t) (snd t) = Some line
          \<and> reaches (\<lambda>_. open_room 0 0 4 4 [pillar (1, 0)]) (one_room_game []) 3 line k
          \<and> (3, 2) = shifted (line ! k)
          \<and> list_all (\<lambda>i. \<not> holds_blocking_furniture (\<lambda>_. open_room 0 0 4 4 [pillar (1, 0)])
                              (one_room_game []) (line ! i)) [1..<Suc k]
          \<and> cheb (0, 0) (line ! k) = int k
          \<and> int k < 3
          \<and> cheb (0, 0) (3, 2) \<le> 3)"
proof -
  let ?h = "\<lambda>_ :: room_ref. open_room 0 0 4 4 [pillar (1, 0)]"
  let ?g = "one_room_game []"
  let ?e = "entity_at (0, 0) 3"
  let ?vis = "[(1, 1), (1, 2), (1, 3), (2, 3), (2, 2), (3, 3), (3 :: int, 2 :: int)]"
  let ?good = "\<lambda>q t line k. cheb (EntPos ?e) t = Sight ?e
                \<and> bresenham (fst (EntPos ?e)) (snd (EntPos ?e)) (fst t) (snd t) = Some line
                \<and> reaches ?h ?g (Sight ?e) line k
                \<and> q = shifted (line ! k)
                \<and> (\<forall>i. 1 \<le> i \<and> i \<le> k \<longrightarrow>
                      \<not> off_floor ?h ?g (line ! i)
                      \<and> \<not> found_furniture_blocks ?h ?g (line ! i)
                      \<and> (one_piece_per_cell ?h ?g (line ! i)
                           \<longrightarrow> \<not> holds_blocking_furniture ?h ?g (line ! i)))
                \<and> cheb (EntPos ?e) (line ! k) = int k
                \<and> int k < max 1 (Sight ?e)
                \<and> int k \<le> Sight ?e
                \<and> cheb (EntPos ?e) (fst q - 1, snd q - 1) < max 1 (Sight ?e)
                \<and> cheb (EntPos ?e) (fst q - 1, snd q - 1) \<le> Sight ?e
                \<and> cheb (EntPos ?e) q \<le> max 1 (Sight ?e)
                \<and> (1 \<le> Sight ?e \<longrightarrow> cheb (EntPos ?e) q \<le> Sight ?e)"
  have d: "DetermineLos ?h ?g ?e True = Some (Inr (?e\<lparr>los := ?vis\<rparr>))"
    by code_simp
  have one: "one_piece_per_cell ?h ?g p" for p
    by (simp add: one_piece_per_cell_def rooms_on_def pieces_on_def floor0_def go_index_def
        one_room_game_def open_room_def pillar_def)
  obtain res where r: "DetermineLos ?h ?g ?e True = Some res"
     "\<forall>ent'. res = Inr ent' \<longrightarrow> (\<forall>q \<in> set (los ent'). \<exists>t line k. ?good q t line k)"
    using DetermineLos_cells [of True ?e ?h ?g, OF disjI1 [OF TrueI]]
    by (elim exE conjE) (rule that; assumption)
  have "res = Inr (?e\<lparr>los := ?vis\<rparr>)" using r(1) d by simp
  moreover have "(3, 2) \<in> set (los (?e\<lparr>los := ?vis\<rparr>))" by simp
  ultimately obtain t line k where g: "?good (3, 2) t line k"
    using r(2) by blast
  have "list_all (\<lambda>i. \<not> holds_blocking_furniture ?h ?g (line ! i)) [1..<Suc k]"
    unfolding list_all_iff
  proof
    fix i assume "i \<in> set [1..<Suc k]"
    then have "1 \<le> i \<and> i \<le> k" by auto
    then show "\<not> holds_blocking_furniture ?h ?g (line ! i)"
      using g one [of "line ! i"] by blast
  qed
  moreover have "cheb (0, 0) t = 3 \<and> bresenham 0 0 (fst t) (snd t) = Some line
      \<and> reaches ?h ?g 3 line k \<and> cheb (0, 0) (line ! k) = int k \<and> int k < 3"
    using g by (simp add: entity_at_def)
  moreover have "(3, 2) = shifted (line ! k)"
    using g by blast
  moreover have "cheb (EntPos ?e) (3, 2) \<le> max 1 (Sight ?e)"
    using g by blast
  then have "cheb (0, 0) (3, 2) \<le> 3"
    by (simp add: entity_at_def)
  ultimately show ?thesis using d by blast
qed

subsection \<open>Further properties of connectivity and door placement\<close>

text \<open>\<^verbatim>\<open>connected(r, r, x, y, x2, y2)\<close> is true for any coordinates.\<close>

theorem connected_same_room: "connected h r r x y x2 y2"
  by (simp add: connected_def)

text \<open>
  A room with a single door, and another room. \<^verbatim>\<open>connected\<close> is true exactly when the
  door is open, the facing deduced from the coordinates is the door's facing, and the
  coordinate along that wall lies in \<open>[Pos, Pos + Width)\<close>. So a closed door never
  connects, and an open one connects within its span and not outside it wherever the
  chain deduces the facing of the door.
\<close>

theorem connected_single_door:
  assumes "r \<noteq> r2" "Doors (h r) = [door]"
  shows "connected h r r2 x y x2 y2 =
     (Opened door
      \<and> deduced_facing (x - X (h r)) (y - Y (h r)) (x2 - X (h r2)) (y2 - Y (h r2)) = Some (Facing door)
      \<and> Pos door \<le> wall_coord (Facing door) (x - X (h r)) (y - Y (h r))
      \<and> wall_coord (Facing door) (x - X (h r)) (y - Y (h r)) < Pos door + Width door)"
proof (cases "deduced_facing (x - X (h r)) (y - Y (h r)) (x2 - X (h r2)) (y2 - Y (h r2))")
  case None
  then show ?thesis
    using assms by (simp add: connected_def deduced_facing_def Let_def split: if_splits)
next
  case (Some facing)
  then have "connected h r r2 x y x2 y2 =
      connected_doors facing (x - X (h r)) (y - Y (h r)) (Doors (h r))"
    using assms(1) by (simp add: connected_def deduced_facing_def Let_def)
  then show ?thesis
    using Some assms(2) by (auto simp: connected_doors_find covers_def)
qed

text \<open>
  Two rooms side by side with an open door of width 2 at position 1 of the shared
  wall: the step from \<open>(4, 2)\<close> to \<open>(5, 2)\<close> is connected, the step from \<open>(4, 3)\<close> to
  \<open>(5, 3)\<close> is not.
\<close>

theorem connected_single_door_witness:
  "(0 :: nat) \<noteq> 1
   \<and> connected (two_rooms (plain_room 0 0 [door_at FarRight 1 2 True]) (plain_room 5 0 [])) 0 1 4 2 5 2
   \<and> \<not> connected (two_rooms (plain_room 0 0 [door_at FarRight 1 2 True]) (plain_room 5 0 [])) 0 1 4 3 5 3
   \<and> \<not> connected (two_rooms (plain_room 0 0 [door_at FarRight 1 2 False]) (plain_room 5 0 [])) 0 1 4 2 5 2"
proof -
  have d: "Doors (two_rooms (plain_room 0 0 [door_at FarRight 1 2 b]) (plain_room 5 0 []) 0)
      = [door_at FarRight 1 2 b]" for b
    by (simp add: two_rooms_def plain_room_def)
  have n: "(0 :: nat) \<noteq> 1" by simp
  let ?h = "\<lambda>b. two_rooms (plain_room 0 0 [door_at FarRight 1 2 b]) (plain_room 5 0 [])"
  show ?thesis
    using connected_single_door [of 0 1 "?h True" "door_at FarRight 1 2 True" 4 2 5 2, OF n d]
      connected_single_door [of 0 1 "?h True" "door_at FarRight 1 2 True" 4 3 5 3, OF n d]
      connected_single_door [of 0 1 "?h False" "door_at FarRight 1 2 False" 4 2 5 2, OF n d]
    by (simp add: deduced_facing_def wall_coord_def two_rooms_def plain_room_def door_at_def)
qed

text \<open>
  What the \<^verbatim>\<open>canAddDoor\<close> of a room computes, for a room whose cell data has the
  shape of its size: true exactly when \<open>Pos\<close> is not negative, \<open>Pos + Width\<close> is less
  than the length of the wall (so the door ends at least one cell before the wall
  does), the cells of the wall from \<open>Pos\<close> to \<open>Pos + Width\<close> inclusive are door-capable,
  and no door of the room on the same facing starts within \<open>[Pos, Pos + Width)\<close> or
  covers \<open>Pos\<close>.
\<close>

theorem canAddDoor_computes:
  assumes "cells_match_size room"
  shows "Room_canAddDoor room door =
     Inr (0 \<le> Pos door
        \<and> Pos door + Width door < wall_length room (Facing door)
        \<and> list_all (\<lambda>pos. wall_cell room (Facing door) pos = Inr True)
             [Pos door .. Pos door + Width door]
        \<and> list_all (\<lambda>other. \<not> (Facing other = Facing door
              \<and> ((Pos door \<le> Pos other \<and> Pos other < Pos door + Width door)
                 \<or> (Pos other \<le> Pos door \<and> Pos door < Pos other + Width other)))) (Doors room))"
proof -
  have "no_overlap door (Doors room) =
      list_all (\<lambda>other. \<not> (Facing other = Facing door
              \<and> ((Pos door \<le> Pos other \<and> Pos other < Pos door + Width door)
                 \<or> (Pos other \<le> Pos door \<and> Pos door < Pos other + Width other)))) (Doors room)"
    unfolding no_overlap_spans by (simp add: list_all_iff)
  then show ?thesis
    using Room_canAddDoor_eq [OF assms, of door] by simp
qed

text \<open>
  In a 5 by 5 room a door of width 2 is accepted at position 2 of a wall and rejected
  at position 3.
\<close>

theorem canAddDoor_computes_witness:
  "cells_match_size (plain_room 0 0 [])
   \<and> Room_canAddDoor (plain_room 0 0 []) (door_at NearRight 2 2 False) = Inr True
   \<and> Room_canAddDoor (plain_room 0 0 []) (door_at NearRight 3 2 False) = Inr False"
proof -
  have c: "cells_match_size (plain_room 0 0 [])"
    by (simp add: cells_match_size_def plain_room_def list_all_iff)
  have u: "[2..4 :: int] = [2, 3, 4]" by code_simp
  show ?thesis
    using canAddDoor_computes [OF c, of "door_at NearRight 2 2 False"]
      canAddDoor_computes [OF c, of "door_at NearRight 3 2 False"] c
    by (simp add: wall_length_def wall_cell_def cell_at_def go_index_def plain_room_def door_at_def u)
qed

end
